theory Spec2Isabelle
  imports Complex_Main "HOL-Library.Sublist" "HOL-Library.Multiset"
begin

section \<open>Paths\<close>

text \<open>
  The services build every path with Node's \<open>path.join\<close> from a resolved directory and
  plain entry names, and take paths apart with \<open>path.dirname\<close>, \<open>path.basename\<close> and
  \<open>path.extname\<close>. A path is modelled by what these functions see of it: the list of
  its segments, as \<open>p.split('/')\<close> gives them. The empty string is \<open>[]\<close>, the root
  \<open>/\<close> is \<open>['''']\<close> and \<open>/a/b.txt\<close> is \<open>['''', ''a'', ''b.txt'']\<close>. A directory that a caller
  passes is taken as it is written: \<open>/d/\<close> is \<open>['''', ''d'', '''']\<close>.
\<close>

type_synonym path = "string list"

definition root :: path where
  "root = ['''']"

text \<open>\<open>path.join(dir, name)\<close> for a normalised directory and a plain, non-empty entry name.\<close>

definition join :: "path \<Rightarrow> string \<Rightarrow> path" where
  "join dir name = dir @ [name]"

text \<open>\<open>path.dirname\<close>: the root is its own parent.\<close>

definition dirname :: "path \<Rightarrow> path" where
  "dirname p = (if length p \<le> 1 then p else butlast p)"

definition basename :: "path \<Rightarrow> string" where
  "basename p = (if p = [] then '''' else last p)"

text \<open>
  A directory as a caller writes it may have empty segments (a separator at the end, two
  in a row), \<open>.\<close> and \<open>..\<close>. \<open>path.join\<close> normalises what it is given: it takes such a
  directory for \<open>normalizePath\<close> of it, which is \<open>path.normalize\<close> without the separator
  that it keeps at the end. The empty string stays what it is; it names nothing.
\<close>

definition normalizeStep :: "bool \<Rightarrow> string list \<Rightarrow> string \<Rightarrow> string list" where
  "normalizeStep absolute acc seg =
     (if seg = '''' \<or> seg = ''.'' then acc
      else if seg = ''..''
      then (if acc \<noteq> [] \<and> last acc \<noteq> ''..'' then butlast acc
            else if absolute then acc else acc @ [seg])
      else acc @ [seg])"

definition normalizePath :: "path \<Rightarrow> path" where
  "normalizePath p =
     (case p of
        [] \<Rightarrow> []
      | s # rest \<Rightarrow>
          if s = '''' then '''' # foldl (normalizeStep True) [] rest
          else (case foldl (normalizeStep False) [] p of [] \<Rightarrow> [''.''] | q \<Rightarrow> q))"

text \<open>
  \<open>path.extname\<close> on the last segment: from the last dot to the end; empty when there
  is no dot, when the only dot is the first character, and for \<open>..\<close>.
\<close>

fun lastDot :: "string \<Rightarrow> nat option" where
  "lastDot [] = None"
| "lastDot (c # cs) =
     (case lastDot cs of
        Some i \<Rightarrow> Some (Suc i)
      | None \<Rightarrow> if c = CHR ''.'' then Some 0 else None)"

definition extname_of :: "string \<Rightarrow> string" where
  "extname_of b =
     (case lastDot b of
        None \<Rightarrow> ''''
      | Some i \<Rightarrow> if i = 0 \<or> b = ''..'' then '''' else drop i b)"

definition extname :: "path \<Rightarrow> string" where
  "extname p = extname_of (basename p)"

text \<open>\<open>path.basename(p, ext)\<close> with \<open>ext = path.extname(p)\<close>: the name without its extension.\<close>

definition basename_ext :: "path \<Rightarrow> string \<Rightarrow> string" where
  "basename_ext p ext =
     (let b = basename p in
      if ext \<noteq> '''' \<and> ext \<noteq> b \<and> length ext \<le> length b \<and> drop (length b - length ext) b = ext
      then take (length b - length ext) b else b)"

text \<open>
  \<open>String.prototype.toLowerCase\<close> belongs to the runtime, with the case mapping of
  Unicode; the classifier takes it as a parameter. On a string of ASCII characters it
  changes the letters \<open>A\<close> to \<open>Z\<close> and nothing else, which is what the examples use.
\<close>

definition lowerChar :: "char \<Rightarrow> char" where
  "lowerChar c =
     (let n = (of_char c :: nat) in if 65 \<le> n \<and> n \<le> 90 then char_of (n + 32) else c)"

definition asciiLowerCase :: "string \<Rightarrow> string" where
  "asciiLowerCase s = map lowerChar s"

text \<open>A number in a template string: its decimal digits.\<close>

definition digit :: "nat \<Rightarrow> char" where
  "digit d = char_of (48 + d)"

function showNat :: "nat \<Rightarrow> string" where
  "showNat n = (if n < 10 then [digit n] else showNat (n div 10) @ [digit (n mod 10)])"
  by pat_completeness auto
termination
  by (relation "measure id") auto

declare showNat.simps [simp del]

section \<open>The filesystem\<close>

text \<open>
  One device, one writer, no permission failures: a call of \<open>fs\<close> fails only for the
  structural reasons written out below. A file carries what \<open>fs.statSync\<close> and the content
  hasher read of it; two files have the same bytes exactly when their digests are equal.
  The filesystem is the list of its entries in directory order.
\<close>

record stats =
  size :: nat
  birthtime :: nat
  mtime :: nat
  digest :: string

datatype node = File stats | Dir

type_synonym filesystem = "(path \<times> node) list"

datatype errno = ENOENT | EISDIR | ENOTDIR | ENOTEMPTY | EINVAL | EEXIST

definition stat :: "filesystem \<Rightarrow> path \<Rightarrow> node option" where
  "stat fs p = map_of fs p"

definition existsSync :: "filesystem \<Rightarrow> path \<Rightarrow> bool" where
  "existsSync fs p = (stat fs p \<noteq> None)"

definition removeEntry :: "path \<Rightarrow> filesystem \<Rightarrow> filesystem" where
  "removeEntry p fs = filter (\<lambda>e. fst e \<noteq> p) fs"

text \<open>\<open>fs.mkdirSync(p, {recursive: true})\<close>: every missing ancestor is created, top down.\<close>

fun mkdirFrom :: "filesystem \<Rightarrow> path \<Rightarrow> string list \<Rightarrow> errno + filesystem" where
  "mkdirFrom fs done [] = Inr fs"
| "mkdirFrom fs done (s # rest) =
     (let q = done @ [s] in
      case stat fs q of
        None \<Rightarrow> mkdirFrom (fs @ [(q, Dir)]) q rest
      | Some Dir \<Rightarrow> mkdirFrom fs q rest
      | Some (File st) \<Rightarrow> Inl (if rest = [] then EEXIST else ENOTDIR))"

definition mkdirSync :: "filesystem \<Rightarrow> path \<Rightarrow> errno + filesystem" where
  "mkdirSync fs p = (if p = [] then Inl ENOENT else mkdirFrom fs [] p)"

definition hasChildren :: "filesystem \<Rightarrow> path \<Rightarrow> bool" where
  "hasChildren fs p = list_ex (\<lambda>e. strict_prefix p (fst e)) fs"

definition reroot :: "path \<Rightarrow> path \<Rightarrow> filesystem \<Rightarrow> filesystem" where
  "reroot src dst fs =
     map (\<lambda>e. if prefix src (fst e) then (dst @ drop (length src) (fst e), snd e) else e) fs"

text \<open>
  \<open>fs.renameSync\<close>. A file replaces a file at the destination; a directory moves with
  everything below it and replaces only an empty directory.
\<close>

definition renameSync :: "filesystem \<Rightarrow> path \<Rightarrow> path \<Rightarrow> errno + filesystem" where
  "renameSync fs src dst =
     (case stat fs src of
        None \<Rightarrow> Inl ENOENT
      | Some n \<Rightarrow>
          if dst = [] \<or> stat fs (dirname dst) = None then Inl ENOENT
          else if stat fs (dirname dst) \<noteq> Some Dir then Inl ENOTDIR
          else if src = dst then Inr fs
          else (case n of
                  File st \<Rightarrow>
                    (case stat fs dst of
                       Some Dir \<Rightarrow> Inl EISDIR
                     | _ \<Rightarrow> Inr (removeEntry dst (removeEntry src fs) @ [(dst, File st)]))
                | Dir \<Rightarrow>
                    if prefix src dst then Inl EINVAL
                    else (case stat fs dst of
                            Some (File st) \<Rightarrow> Inl ENOTDIR
                          | Some Dir \<Rightarrow>
                              if hasChildren fs dst then Inl ENOTEMPTY
                              else Inr (reroot src dst (removeEntry dst fs))
                          | None \<Rightarrow> Inr (reroot src dst fs))))"

text \<open>
  \<open>fs.copyFileSync\<close>: the copy has the bytes of the source. On one device it fails
  wherever renaming a file does, so the services' fallback never succeeds after a failed
  rename; it is modelled all the same.
\<close>

definition copyFileSync :: "filesystem \<Rightarrow> path \<Rightarrow> path \<Rightarrow> errno + filesystem" where
  "copyFileSync fs src dst =
     (case stat fs src of
        None \<Rightarrow> Inl ENOENT
      | Some Dir \<Rightarrow> Inl EISDIR
      | Some (File st) \<Rightarrow>
          if dst = [] \<or> stat fs (dirname dst) = None then Inl ENOENT
          else if stat fs (dirname dst) \<noteq> Some Dir then Inl ENOTDIR
          else if stat fs dst = Some Dir then Inl EISDIR
          else if src = dst then Inr fs
          else Inr (removeEntry dst fs @ [(dst, File st)]))"

definition unlinkSync :: "filesystem \<Rightarrow> path \<Rightarrow> errno + filesystem" where
  "unlinkSync fs p =
     (case stat fs p of
        None \<Rightarrow> Inl ENOENT
      | Some Dir \<Rightarrow> Inl EISDIR
      | Some (File st) \<Rightarrow> Inr (removeEntry p fs))"

section \<open>Safe filesystem operations (\<open>fsSafe\<close>)\<close>

definition fileExists :: "filesystem \<Rightarrow> path \<Rightarrow> bool" where
  "fileExists fs p = existsSync fs p"

text \<open>
  How the filesystem finds a path as it is written: it walks the segments from the root,
  and what it leaves behind at each segment, also at an empty one, at \<open>.\<close> and at \<open>..\<close>,
  must be a directory. Where it arrives is the normalised path. A relative path, which
  the working directory would resolve, is taken normalised.
\<close>

fun walkFrom :: "filesystem \<Rightarrow> path \<Rightarrow> string list \<Rightarrow> path option" where
  "walkFrom fs cur [] = Some cur"
| "walkFrom fs cur (seg # rest) =
     (if stat fs cur \<noteq> Some Dir then None
      else if seg = '''' \<or> seg = ''.'' then walkFrom fs cur rest
      else if seg = ''..'' then walkFrom fs (dirname cur) rest
      else walkFrom fs (cur @ [seg]) rest)"

definition resolvePath :: "filesystem \<Rightarrow> path \<Rightarrow> path option" where
  "resolvePath fs p =
     (case p of
        [] \<Rightarrow> None
      | s # rest \<Rightarrow> if s = '''' then walkFrom fs root rest else Some (normalizePath p))"

text \<open>\<open>directoryExists\<close>, of a path as it is written.\<close>

definition directoryExists :: "filesystem \<Rightarrow> path \<Rightarrow> bool" where
  "directoryExists fs p =
     (case resolvePath fs p of
        None \<Rightarrow> False
      | Some q \<Rightarrow> existsSync fs q \<and> stat fs q = Some Dir)"

text \<open>\<open>getFileInfo\<close>: \<open>None\<close> is the source's \<open>null\<close>.\<close>

record fileInfo =
  infoPath :: path
  infoName :: string
  infoSize :: nat
  infoCreatedAt :: nat
  infoModifiedAt :: nat
  infoIsFile :: bool
  infoIsDirectory :: bool

definition getFileInfo :: "filesystem \<Rightarrow> path \<Rightarrow> fileInfo option" where
  "getFileInfo fs p =
     (case stat fs p of
        None \<Rightarrow> None
      | Some (File st) \<Rightarrow>
          Some \<lparr>infoPath = p, infoName = basename p, infoSize = size st,
                infoCreatedAt = birthtime st, infoModifiedAt = mtime st,
                infoIsFile = True, infoIsDirectory = False\<rparr>
      | Some Dir \<Rightarrow>
          Some \<lparr>infoPath = p, infoName = basename p, infoSize = 0,
                infoCreatedAt = 0, infoModifiedAt = 0,
                infoIsFile = False, infoIsDirectory = True\<rparr>)"

text \<open>\<open>ensureDirectory\<close> returns whether the directory is there, and the filesystem.\<close>

definition ensureDirectory :: "filesystem \<Rightarrow> path \<Rightarrow> bool \<times> filesystem" where
  "ensureDirectory fs p =
     (if \<not> existsSync fs p
      then (case mkdirSync fs p of Inr fs' \<Rightarrow> (True, fs') | Inl e \<Rightarrow> (False, fs))
      else (True, fs))"

text \<open>
  \<open>getUniqueFilename\<close>. The \<open>do ... while\<close> loop: build the candidate, increment the
  counter, and go round again while the candidate exists and the counter is below 1000.
\<close>

definition candidate :: "path \<Rightarrow> string \<Rightarrow> string \<Rightarrow> nat \<Rightarrow> path" where
  "candidate dir baseName ext counter = join dir (baseName @ ''_'' @ showNat counter @ ext)"

function uniqueLoop :: "filesystem \<Rightarrow> path \<Rightarrow> string \<Rightarrow> string \<Rightarrow> nat \<Rightarrow> path" where
  "uniqueLoop fs dir baseName ext counter =
     (let newPath = candidate dir baseName ext counter;
          counter' = counter + 1
      in if existsSync fs newPath \<and> counter' < 1000
         then uniqueLoop fs dir baseName ext counter'
         else newPath)"
  by pat_completeness auto
termination
  by (relation "measure (\<lambda>(fs, dir, baseName, ext, counter). 1000 - counter)") auto

declare uniqueLoop.simps [simp del]

definition getUniqueFilename :: "filesystem \<Rightarrow> path \<Rightarrow> path" where
  "getUniqueFilename fs targetPath =
     (if \<not> existsSync fs targetPath then targetPath
      else let dir = dirname targetPath;
               ext = extname targetPath;
               baseName = basename_ext targetPath ext
           in uniqueLoop fs dir baseName ext 1)"

text \<open>
  \<open>safeMove\<close>. The result record of the source, and the filesystem after the call. The
  error text is \<open>File not found\<close> for \<open>ENOENT\<close> and the message of the error otherwise
  (here the name of its code).
\<close>

record moveResult =
  mrSuccess :: bool
  mrFrom :: path
  mrTo :: path
  mrError :: "string option"

fun errnoName :: "errno \<Rightarrow> string" where
  "errnoName ENOENT = ''ENOENT''"
| "errnoName EISDIR = ''EISDIR''"
| "errnoName ENOTDIR = ''ENOTDIR''"
| "errnoName ENOTEMPTY = ''ENOTEMPTY''"
| "errnoName EINVAL = ''EINVAL''"
| "errnoName EEXIST = ''EEXIST''"

definition moveErrorMsg :: "errno \<Rightarrow> string" where
  "moveErrorMsg e = (if e = ENOENT then ''File not found'' else errnoName e)"

definition safeMove :: "filesystem \<Rightarrow> path \<Rightarrow> path \<Rightarrow> bool \<Rightarrow> moveResult \<times> filesystem" where
  "safeMove fs src dst handleCollision =
     (if \<not> existsSync fs src
      then (\<lparr>mrSuccess = False, mrFrom = src, mrTo = dst,
              mrError = Some ''Source file does not exist''\<rparr>, fs)
      else
        (case ensureDirectory fs (dirname dst) of
           (False, fs1) \<Rightarrow>
             (\<lparr>mrSuccess = False, mrFrom = src, mrTo = dst,
               mrError = Some ''Failed to create target directory''\<rparr>, fs1)
         | (True, fs1) \<Rightarrow>
             (let finalTo = (if handleCollision \<and> existsSync fs1 dst
                             then getUniqueFilename fs1 dst else dst)
              in case renameSync fs1 src finalTo of
                   Inr fs2 \<Rightarrow>
                     (\<lparr>mrSuccess = True, mrFrom = src, mrTo = finalTo, mrError = None\<rparr>, fs2)
                 | Inl e \<Rightarrow>
                     (case copyFileSync fs1 src finalTo of
                        Inl e1 \<Rightarrow>
                          (\<lparr>mrSuccess = False, mrFrom = src, mrTo = dst,
                            mrError = Some (moveErrorMsg e1)\<rparr>, fs1)
                      | Inr fs2 \<Rightarrow>
                          (case unlinkSync fs2 src of
                             Inl e2 \<Rightarrow>
                               (\<lparr>mrSuccess = False, mrFrom = src, mrTo = dst,
                                 mrError = Some (moveErrorMsg e2)\<rparr>, fs2)
                           | Inr fs3 \<Rightarrow>
                               (\<lparr>mrSuccess = True, mrFrom = src, mrTo = finalTo,
                                 mrError = None\<rparr>, fs3))))))"

section \<open>The transaction ledger\<close>

datatype actionType = Move | Delete | Restore

datatype actionStatus = ActPending | ActCompleted | ActFailed | ActRolledBack

datatype transactionType = Organize | Dedupe | Rollback

datatype transactionStatus = Pending | Completed | PartiallyCompleted | Failed | RolledBack

text \<open>
  \<open>ITransactionAction\<close>. The destination \<open>to\<close> is the empty string (\<open>[]\<close>) where the
  source writes \<open>''\<close>. Dates are milliseconds.
\<close>

record transactionAction =
  actionId :: string
  actType :: actionType
  actFrom :: path
  actTo :: path
  actStatus :: actionStatus
  actError :: "string option"
  fileHash :: "string option"
  fileSize :: "nat option"

record transactionSummary =
  movedCount :: nat
  deletedCount :: nat
  restoredCount :: nat
  failedCount :: nat
  savedBytes :: int
  totalProcessed :: nat

record transaction =
  transactionId :: string
  txType :: transactionType
  txStatus :: transactionStatus
  actions :: "transactionAction list"
  summary :: transactionSummary
  targetPath :: path
  dryRun :: bool
  strategy :: "string option"
  createdAt :: nat
  completedAt :: "nat option"
  rolledBackAt :: "nat option"
  rollbackTransactionId :: "string option"

text \<open>
  The collection of transactions, in insertion order. \<open>transactionId\<close> has a unique index:
  saving a new document under an identifier already there throws. Saving a document that
  was read from the collection replaces it.
\<close>

type_synonym ledger = "transaction list"

datatype error =
    DirectoryNotFound
  | TransactionNotFound
  | AlreadyRolledBack
  | CannotRollbackDryRun
  | DuplicateKey

definition findOne :: "ledger \<Rightarrow> string \<Rightarrow> transaction option" where
  "findOne store tid = find (\<lambda>t. transactionId t = tid) store"

definition saveNew :: "ledger \<Rightarrow> transaction \<Rightarrow> error + ledger" where
  "saveNew store t =
     (if list_ex (\<lambda>x. transactionId x = transactionId t) store then Inl DuplicateKey
      else Inr (store @ [t]))"

fun saveExisting :: "ledger \<Rightarrow> transaction \<Rightarrow> ledger" where
  "saveExisting [] t = []"
| "saveExisting (x # xs) t =
     (if transactionId x = transactionId t then t # xs else x # saveExisting xs t)"

text \<open>What a service works on: the filesystem and the ledger.\<close>

record state =
  fsys :: filesystem
  ledger :: ledger

section \<open>The rollback service\<close>

datatype rollbackStatus = Restored | RbFailed | Skipped

record rollbackOutcome =
  roStatus :: rollbackStatus
  roError :: "string option"

record rollbackDetail =
  rdFrom :: path
  rdTo :: path
  rdStatus :: rollbackStatus
  rdError :: "string option"

record rollbackSummary =
  totalActions :: nat
  rsRestoredCount :: nat
  rsFailedCount :: nat
  rsSkippedCount :: nat

record rollbackResult =
  rrTransactionId :: string
  rrRollbackTransactionId :: string
  rrOriginalType :: transactionType
  rrSummary :: rollbackSummary
  rrDetails :: "rollbackDetail list"

fun typeName :: "actionType \<Rightarrow> string" where
  "typeName Move = ''move''"
| "typeName Delete = ''delete''"
| "typeName Restore = ''restore''"

definition rollbackMove :: "filesystem \<Rightarrow> transactionAction \<Rightarrow> rollbackOutcome \<times> filesystem" where
  "rollbackMove fs action =
     (let src = actFrom action; dst = actTo action in
      if \<not> fileExists fs dst
      then (\<lparr>roStatus = Skipped, roError = Some ''File no longer exists at moved location''\<rparr>, fs)
      else if fileExists fs src
      then (\<lparr>roStatus = Skipped,
              roError = Some ''Original location is no longer available (file exists)''\<rparr>, fs)
      else
        (case ensureDirectory fs (dirname src) of
           (ok, fs1) \<Rightarrow>
             (case safeMove fs1 dst src False of
                (result, fs2) \<Rightarrow>
                  if mrSuccess result then (\<lparr>roStatus = Restored, roError = None\<rparr>, fs2)
                  else (\<lparr>roStatus = RbFailed, roError = mrError result\<rparr>, fs2))))"

definition rollbackDelete :: "filesystem \<Rightarrow> transactionAction \<Rightarrow> rollbackOutcome \<times> filesystem" where
  "rollbackDelete fs action =
     (let src = actFrom action; dst = actTo action in
      if dst \<noteq> [] \<and> fileExists fs dst
      then
        (case ensureDirectory fs (dirname src) of
           (ok, fs1) \<Rightarrow>
             (case safeMove fs1 dst src True of
                (result, fs2) \<Rightarrow>
                  if mrSuccess result then (\<lparr>roStatus = Restored, roError = None\<rparr>, fs2)
                  else (\<lparr>roStatus = RbFailed, roError = mrError result\<rparr>, fs2)))
      else (\<lparr>roStatus = Skipped,
              roError = Some ''File was permanently deleted or trash file not found''\<rparr>, fs))"

text \<open>The loop of \<open>rollback\<close>: what it has pushed and counted so far.\<close>

record rollbackAcc =
  rollbackActions :: "transactionAction list"
  details :: "rollbackDetail list"
  accRestored :: nat
  accFailed :: nat
  accSkipped :: nat

definition emptyAcc :: rollbackAcc where
  "emptyAcc = \<lparr>rollbackActions = [], details = [], accRestored = 0, accFailed = 0, accSkipped = 0\<rparr>"

text \<open>\<open>action.to || action.from\<close>\<close>

definition toOrFrom :: "transactionAction \<Rightarrow> path" where
  "toOrFrom action = (if actTo action \<noteq> [] then actTo action else actFrom action)"

text \<open>
  One round of the loop, for the action it reads and the short identifier it generates.
  Neither \<open>rollbackMove\<close> nor \<open>rollbackDelete\<close> throws, so the \<open>catch\<close> of the round is
  never entered.
\<close>

definition rollbackStep ::
  "string \<Rightarrow> transactionAction \<Rightarrow> rollbackAcc \<times> filesystem \<Rightarrow> rollbackAcc \<times> filesystem" where
  "rollbackStep sid action st =
     (case st of (acc, fs) \<Rightarrow>
        (case (case actType action of
                 Move \<Rightarrow> rollbackMove fs action
               | Delete \<Rightarrow> rollbackDelete fs action
               | other \<Rightarrow>
                   (\<lparr>roStatus = Skipped,
                     roError = Some (''Unknown action type: '' @ typeName (actType action))\<rparr>, fs))
         of (rollbackResult, fs') \<Rightarrow>
           (acc\<lparr>details := details acc @
                   [\<lparr>rdFrom = toOrFrom action, rdTo = actFrom action,
                     rdStatus = roStatus rollbackResult, rdError = roError rollbackResult\<rparr>],
                 rollbackActions := rollbackActions acc @
                   [\<lparr>actionId = sid, actType = Restore, actFrom = toOrFrom action,
                     actTo = actFrom action,
                     actStatus = (if roStatus rollbackResult = Restored then ActCompleted
                                  else if roStatus rollbackResult = RbFailed then ActFailed
                                  else ActCompleted),
                     actError = roError rollbackResult,
                     fileHash = fileHash action, fileSize = fileSize action\<rparr>],
                 accRestored := accRestored acc + (if roStatus rollbackResult = Restored then 1 else 0),
                 accFailed := accFailed acc + (if roStatus rollbackResult = RbFailed then 1 else 0),
                 accSkipped := accSkipped acc + (if roStatus rollbackResult = Skipped then 1 else 0)\<rparr>,
            fs')))"

fun rollbackLoop ::
  "(nat \<Rightarrow> string) \<Rightarrow> nat \<Rightarrow> transactionAction list \<Rightarrow> rollbackAcc \<times> filesystem
     \<Rightarrow> rollbackAcc \<times> filesystem" where
  "rollbackLoop sid i [] st = st"
| "rollbackLoop sid i (action # rest) st =
     rollbackLoop sid (i + 1) rest (rollbackStep (sid i) action st)"

definition actionsToRollback :: "transaction \<Rightarrow> transactionAction list" where
  "actionsToRollback t = filter (\<lambda>action. actStatus action = ActCompleted) (actions t)"

definition reversedActions :: "transaction \<Rightarrow> transactionAction list" where
  "reversedActions t = rev (actionsToRollback t)"

text \<open>
  \<open>rollback\<close>. \<open>rid\<close> is the identifier \<open>generateId\<close> returns, \<open>sid i\<close> the short
  identifier generated in round \<open>i\<close>, \<open>now\<close> the clock. The result is the error thrown
  or the report returned, and the state after the call.
\<close>

definition rollback ::
  "state \<Rightarrow> string \<Rightarrow> string \<Rightarrow> (nat \<Rightarrow> string) \<Rightarrow> nat \<Rightarrow> (error + rollbackResult) \<times> state" where
  "rollback s tid rid sid now =
     (case findOne (ledger s) tid of
        None \<Rightarrow> (Inl TransactionNotFound, s)
      | Some originalTransaction \<Rightarrow>
          if txStatus originalTransaction = RolledBack then (Inl AlreadyRolledBack, s)
          else if dryRun originalTransaction then (Inl CannotRollbackDryRun, s)
          else
            (case rollbackLoop sid 0 (reversedActions originalTransaction) (emptyAcc, fsys s)
             of (acc, fs') \<Rightarrow>
               (let rollbackTransaction =
                      \<lparr>transactionId = rid, txType = Rollback,
                        txStatus = (if accFailed acc = 0 then Completed else PartiallyCompleted),
                        actions = rollbackActions acc,
                        summary = \<lparr>movedCount = 0, deletedCount = 0,
                                    restoredCount = accRestored acc, failedCount = accFailed acc,
                                    savedBytes = 0,
                                    totalProcessed = length (reversedActions originalTransaction)\<rparr>,
                        targetPath = targetPath originalTransaction, dryRun = False,
                        strategy = None, createdAt = now, completedAt = Some now,
                        rolledBackAt = None, rollbackTransactionId = None\<rparr>
                in case saveNew (ledger s) rollbackTransaction of
                     Inl e \<Rightarrow> (Inl e, s\<lparr>fsys := fs'\<rparr>)
                   | Inr store1 \<Rightarrow>
                       (Inr \<lparr>rrTransactionId = tid, rrRollbackTransactionId = rid,
                             rrOriginalType = txType originalTransaction,
                             rrSummary = \<lparr>totalActions = length (reversedActions originalTransaction),
                                           rsRestoredCount = accRestored acc,
                                           rsFailedCount = accFailed acc,
                                           rsSkippedCount = accSkipped acc\<rparr>,
                             rrDetails = details acc\<rparr>,
                        \<lparr>fsys = fs',
                         ledger = saveExisting store1
                           (originalTransaction\<lparr>txStatus := RolledBack, rolledBackAt := Some now,
                              rollbackTransactionId := Some rid\<rparr>)\<rparr>))))"

text \<open>
  \<open>getRollbackableTransactions\<close>: the query, then newest first (the sort keeps the
  insertion order of documents created at the same time).
\<close>

definition insertNewest :: "transaction \<Rightarrow> transaction list \<Rightarrow> transaction list" where
  "insertNewest t ts =
     takeWhile (\<lambda>x. createdAt t < createdAt x) ts @ t # dropWhile (\<lambda>x. createdAt t < createdAt x) ts"

definition sortNewestFirst :: "transaction list \<Rightarrow> transaction list" where
  "sortNewestFirst ts = foldr insertNewest ts []"

definition getRollbackableTransactions :: "ledger \<Rightarrow> transaction list" where
  "getRollbackableTransactions store =
     sortNewestFirst
       (filter (\<lambda>t. (txStatus t = Completed \<or> txStatus t = PartiallyCompleted) \<and> dryRun t = False)
          store)"

text \<open>The status recorded for an outcome of the loop.\<close>

definition restoreStatus :: "rollbackStatus \<Rightarrow> actionStatus" where
  "restoreStatus st = (if st = RbFailed then ActFailed else ActCompleted)"

section \<open>Listing a directory (\<open>getAllFiles\<close>)\<close>

text \<open>
  \<open>fs.readdirSync(dir, {withFileTypes: true})\<close>: the entries directly below \<open>dir\<close>, in
  directory order, each with its name and its kind. An entry that is listed is the one
  \<open>stat\<close> finds under its path.
\<close>

definition isChild :: "path \<Rightarrow> path \<Rightarrow> bool" where
  "isChild dir p = (length p > 1 \<and> butlast p = dir)"

definition readdirSync :: "filesystem \<Rightarrow> path \<Rightarrow> (string \<times> node) list" where
  "readdirSync fs dir =
     map (\<lambda>e. (last (fst e), snd e))
       (remdups (filter (\<lambda>e. isChild dir (fst e) \<and> stat fs (fst e) = Some (snd e)) fs))"

definition maxDepth :: "filesystem \<Rightarrow> nat" where
  "maxDepth fs = foldr (\<lambda>e m. max (length (fst e)) m) fs 0"

definition startsWithDot :: "string \<Rightarrow> bool" where
  "startsWithDot name = (case name of [] \<Rightarrow> False | c # cs \<Rightarrow> c = CHR ''.'')"

text \<open>
  \<open>getAllFiles\<close>. The filter is optional. Reading something that is not a directory
  throws, and the \<open>catch\<close> returns the files found so far: none. Hidden directories,
  \<open>node_modules\<close> and the trash are not entered.
\<close>

function getAllFiles ::
  "filesystem \<Rightarrow> path \<Rightarrow> bool \<Rightarrow> (path \<Rightarrow> bool) option \<Rightarrow> path list" where
  "getAllFiles fs dirPath recursive flt =
     (if stat fs dirPath \<noteq> Some Dir then []
      else concat (map (\<lambda>entry.
             (let fullPath = join dirPath (fst entry) in
              case snd entry of
                File st \<Rightarrow>
                  (if (case flt of None \<Rightarrow> True | Some f \<Rightarrow> f fullPath) then [fullPath] else [])
              | Dir \<Rightarrow>
                  (if recursive \<and> \<not> startsWithDot (fst entry) \<and> fst entry \<noteq> ''node_modules'' \<and>
                      fst entry \<noteq> ''.deskpilot-trash''
                   then getAllFiles fs fullPath recursive flt else [])))
           (readdirSync fs dirPath)))"
  by pat_completeness auto

lemma length_le_maxDepth: "e \<in> set fs \<Longrightarrow> length (fst e) \<le> maxDepth fs"
  by (induction fs) (auto simp: maxDepth_def)

lemma readdirSync_entry:
  assumes "entry \<in> set (readdirSync fs dir)"
  shows "(join dir (fst entry), snd entry) \<in> set fs \<and>
         stat fs (join dir (fst entry)) = Some (snd entry)"
proof -
  from assms obtain e where e: "e \<in> set fs" "isChild dir (fst e)" "stat fs (fst e) = Some (snd e)"
    "entry = (last (fst e), snd e)"
    by (auto simp: readdirSync_def)
  from e(2) have "fst e \<noteq> []" "butlast (fst e) = dir"
    by (auto simp: isChild_def)
  then have "join dir (last (fst e)) = fst e"
    using append_butlast_last_id [of "fst e"] by (simp add: join_def)
  with e show ?thesis by simp
qed

text \<open>Every call goes one level down, and no entry lies deeper than the deepest one.\<close>

termination getAllFiles
proof (relation "measure (\<lambda>(fs, dirPath, recursive, flt). maxDepth fs + 1 - length dirPath)", goal_cases)
  case 1
  then show ?case by simp
next
  case (2 fs dirPath recursive flt entry fullPath)
  from readdirSync_entry [OF 2(2)] have "(join dirPath (fst entry), snd entry) \<in> set fs"
    by simp
  from length_le_maxDepth [OF this] have "length (join dirPath (fst entry)) \<le> maxDepth fs"
    by simp
  then show ?case
    using 2(3) by (simp add: join_def)
qed

declare getAllFiles.simps [simp del]

section \<open>The category classifier (\<open>categorize\<close>)\<close>

definition EXTENSION_CATEGORIES :: "(string \<times> string) list" where
  "EXTENSION_CATEGORIES = [
    (''.pdf'', ''Documents''), (''.doc'', ''Documents''), (''.docx'', ''Documents''), (''.xls'', ''Documents''),
    (''.xlsx'', ''Documents''), (''.ppt'', ''Documents''), (''.pptx'', ''Documents''), (''.txt'', ''Documents''),
    (''.rtf'', ''Documents''), (''.odt'', ''Documents''), (''.ods'', ''Documents''), (''.odp'', ''Documents''),
    (''.csv'', ''Documents''), (''.md'', ''Documents''), (''.epub'', ''Documents''), (''.mobi'', ''Documents''),
    (''.jpg'', ''Images''), (''.jpeg'', ''Images''), (''.png'', ''Images''), (''.gif'', ''Images''),
    (''.bmp'', ''Images''), (''.svg'', ''Images''), (''.webp'', ''Images''), (''.ico'', ''Images''),
    (''.tiff'', ''Images''), (''.tif'', ''Images''), (''.psd'', ''Images''), (''.ai'', ''Images''),
    (''.eps'', ''Images''), (''.raw'', ''Images''), (''.cr2'', ''Images''), (''.nef'', ''Images''),
    (''.heic'', ''Images''), (''.heif'', ''Images''), (''.mp4'', ''Videos''), (''.avi'', ''Videos''),
    (''.mkv'', ''Videos''), (''.mov'', ''Videos''), (''.wmv'', ''Videos''), (''.flv'', ''Videos''),
    (''.webm'', ''Videos''), (''.m4v'', ''Videos''), (''.mpeg'', ''Videos''), (''.mpg'', ''Videos''),
    (''.3gp'', ''Videos''), (''.vob'', ''Videos''), (''.mp3'', ''Audio''), (''.wav'', ''Audio''),
    (''.flac'', ''Audio''), (''.aac'', ''Audio''), (''.ogg'', ''Audio''), (''.wma'', ''Audio''),
    (''.m4a'', ''Audio''), (''.aiff'', ''Audio''), (''.ape'', ''Audio''), (''.alac'', ''Audio''),
    (''.mid'', ''Audio''), (''.midi'', ''Audio''), (''.exe'', ''Installers''), (''.msi'', ''Installers''),
    (''.dmg'', ''Installers''), (''.pkg'', ''Installers''), (''.deb'', ''Installers''), (''.rpm'', ''Installers''),
    (''.appimage'', ''Installers''), (''.snap'', ''Installers''), (''.flatpak'', ''Installers''), (''.apk'', ''Installers''),
    (''.ipa'', ''Installers''), (''.zip'', ''Archives''), (''.rar'', ''Archives''), (''.7z'', ''Archives''),
    (''.tar'', ''Archives''), (''.gz'', ''Archives''), (''.bz2'', ''Archives''), (''.xz'', ''Archives''),
    (''.iso'', ''Archives''), (''.img'', ''Archives''), (''.cab'', ''Archives''), (''.arj'', ''Archives''),
    (''.lzh'', ''Archives''), (''.js'', ''Code''), (''.ts'', ''Code''), (''.jsx'', ''Code''),
    (''.tsx'', ''Code''), (''.py'', ''Code''), (''.java'', ''Code''), (''.c'', ''Code''),
    (''.cpp'', ''Code''), (''.cc'', ''Code''), (''.h'', ''Code''), (''.hpp'', ''Code''),
    (''.cs'', ''Code''), (''.go'', ''Code''), (''.rs'', ''Code''), (''.rb'', ''Code''),
    (''.php'', ''Code''), (''.swift'', ''Code''), (''.kt'', ''Code''), (''.scala'', ''Code''),
    (''.r'', ''Code''), (''.m'', ''Code''), (''.mm'', ''Code''), (''.sql'', ''Code''),
    (''.sh'', ''Code''), (''.bash'', ''Code''), (''.ps1'', ''Code''), (''.bat'', ''Code''),
    (''.cmd'', ''Code''), (''.html'', ''Code''), (''.htm'', ''Code''), (''.css'', ''Code''),
    (''.scss'', ''Code''), (''.sass'', ''Code''), (''.less'', ''Code''), (''.json'', ''Code''),
    (''.xml'', ''Code''), (''.yaml'', ''Code''), (''.yml'', ''Code''), (''.toml'', ''Code''),
    (''.ini'', ''Code''), (''.cfg'', ''Code''), (''.conf'', ''Code''), (''.vue'', ''Code''),
    (''.svelte'', ''Code''), (''.astro'', ''Code'')]"

text \<open>\<open>categorizeFile\<close>; \<open>toLower\<close> is \<open>String.prototype.toLowerCase\<close>.\<close>

definition categorizeFile :: "(string \<Rightarrow> string) \<Rightarrow> path \<Rightarrow> string" where
  "categorizeFile toLower filePath =
     (case map_of EXTENSION_CATEGORIES (toLower (extname filePath)) of
        Some category \<Rightarrow> category
      | None \<Rightarrow> ''Others'')"

definition getAllCategories :: "string list" where
  "getAllCategories =
     [''Documents'', ''Images'', ''Videos'', ''Audio'', ''Installers'', ''Archives'', ''Code'',
      ''Others'']"

section \<open>The organizer\<close>

record organizePlan =
  opFrom :: path
  opTo :: path
  opCategory :: string
  opFileName :: string
  opSize :: nat

record organizeSummary =
  osTotalFiles :: nat
  osMovedCount :: nat
  osFailedCount :: nat
  osByCategory :: "string \<Rightarrow> nat option"

record organizeResult =
  orTransactionId :: string
  orTargetPath :: path
  orDryRun :: bool
  orPlan :: "organizePlan list"
  orSummary :: organizeSummary

text \<open>
  \<open>getOrganizableFiles\<close>: the listing without the files whose parent directory bears the
  name of a category; when not recursive, the files whose \<open>path.dirname\<close> is the directory
  as it was passed. The listing reads the directory and joins the names to it, so its
  paths are those below the normalised directory; the comparison is one of strings.
\<close>

definition notInCategoryFolder :: "path \<Rightarrow> bool" where
  "notInCategoryFolder filePath =
     (let parentDir = basename (dirname filePath) in parentDir \<notin> set getAllCategories)"

definition getOrganizableFiles :: "filesystem \<Rightarrow> path \<Rightarrow> bool \<Rightarrow> path list" where
  "getOrganizableFiles fs dirPath recursive =
     (let entries = getAllFiles fs (normalizePath dirPath) recursive (Some notInCategoryFolder) in
      if \<not> recursive then filter (\<lambda>f. dirname f = dirPath) entries else entries)"

text \<open>The first loop of \<open>organize\<close>: the plan, the actions and the count by category.\<close>

record planAcc =
  paPlan :: "organizePlan list"
  paActions :: "transactionAction list"
  paByCategory :: "string \<Rightarrow> nat option"

definition planStep ::
  "(string \<Rightarrow> string) \<Rightarrow> filesystem \<Rightarrow> path \<Rightarrow> (nat \<Rightarrow> string) \<Rightarrow> path \<Rightarrow> planAcc \<Rightarrow> planAcc" where
  "planStep toLower fs dirPath sid filePath acc =
     (case getFileInfo fs filePath of
        None \<Rightarrow> acc
      | Some fileInfo \<Rightarrow>
          if \<not> infoIsFile fileInfo then acc
          else
            (let category = categorizeFile toLower filePath;
                 targetDir = join dirPath category;
                 targetPath = join targetDir (infoName fileInfo)
             in if dirname filePath = targetDir then acc
                else acc\<lparr>paPlan := paPlan acc @
                            [\<lparr>opFrom = filePath, opTo = targetPath, opCategory = category,
                              opFileName = infoName fileInfo, opSize = infoSize fileInfo\<rparr>],
                          paByCategory := (paByCategory acc)(category \<mapsto>
                            (case paByCategory acc category of None \<Rightarrow> 0 | Some k \<Rightarrow> k) + 1),
                          paActions := paActions acc @
                            [\<lparr>actionId = sid (length (paActions acc)), actType = Move,
                              actFrom = filePath, actTo = targetPath, actStatus = ActPending,
                              actError = None, fileHash = None,
                              fileSize = Some (infoSize fileInfo)\<rparr>]\<rparr>))"

fun planLoop ::
  "(string \<Rightarrow> string) \<Rightarrow> filesystem \<Rightarrow> path \<Rightarrow> (nat \<Rightarrow> string) \<Rightarrow> path list \<Rightarrow> planAcc
     \<Rightarrow> planAcc" where
  "planLoop toLower fs dirPath sid [] acc = acc"
| "planLoop toLower fs dirPath sid (filePath # rest) acc =
     planLoop toLower fs dirPath sid rest (planStep toLower fs dirPath sid filePath acc)"

text \<open>Creating the category folders; the result of \<open>ensureDirectory\<close> is not looked at.\<close>

fun ensureCategories :: "filesystem \<Rightarrow> path \<Rightarrow> string list \<Rightarrow> filesystem" where
  "ensureCategories fs dirPath [] = fs"
| "ensureCategories fs dirPath (category # rest) =
     ensureCategories (snd (ensureDirectory fs (join dirPath category))) dirPath rest"

text \<open>
  The second loop: one move per plan item, the outcome written into the action of the
  same index. \<open>safeMove\<close> does not throw, so the \<open>catch\<close> of the round is never entered.
\<close>

record execAcc =
  eaActions :: "transactionAction list"
  eaDone :: nat
  eaFailed :: nat

fun moveLoop ::
  "organizePlan list \<Rightarrow> transactionAction list \<Rightarrow> execAcc \<times> filesystem \<Rightarrow> execAcc \<times> filesystem" where
  "moveLoop (item # plan) (action # rest) st =
     (case st of (acc, fs) \<Rightarrow>
        (case safeMove fs (opFrom item) (opTo item) True of
           (result, fs') \<Rightarrow>
             moveLoop plan rest
               (if mrSuccess result
                then (acc\<lparr>eaDone := eaDone acc + 1,
                           eaActions := eaActions acc @
                             [action\<lparr>actStatus := ActCompleted, actTo := mrTo result\<rparr>]\<rparr>, fs')
                else (acc\<lparr>eaFailed := eaFailed acc + 1,
                           eaActions := eaActions acc @
                             [action\<lparr>actStatus := ActFailed, actError := mrError result\<rparr>]\<rparr>, fs'))))"
| "moveLoop plan rest st = (case st of (acc, fs) \<Rightarrow> (acc\<lparr>eaActions := eaActions acc @ rest\<rparr>, fs))"

text \<open>
  \<open>organize\<close>. \<open>toLower\<close> is \<open>String.prototype.toLowerCase\<close>, \<open>tid\<close> the identifier
  \<open>generateId\<close> returns, \<open>sid i\<close> the \<open>i\<close>-th short identifier generated, \<open>now\<close> the clock.
  \<open>dirPath\<close> is the directory as the caller wrote it: the listing and \<open>path.join\<close> take
  it for \<open>normalizePath dirPath\<close>, the comparison in \<open>getOrganizableFiles\<close> and the records
  take it as it is.
\<close>

definition organize ::
  "(string \<Rightarrow> string) \<Rightarrow> state \<Rightarrow> path \<Rightarrow> bool \<Rightarrow> bool \<Rightarrow> string \<Rightarrow> (nat \<Rightarrow> string) \<Rightarrow> nat
     \<Rightarrow> (error + organizeResult) \<times> state" where
  "organize toLower s dirPath dryRunOpt recursive tid sid now =
     (if \<not> directoryExists (fsys s) dirPath then (Inl DirectoryNotFound, s)
      else
        (let filePaths = getOrganizableFiles (fsys s) dirPath recursive;
             planned = planLoop toLower (fsys s) (normalizePath dirPath) sid filePaths
                         \<lparr>paPlan = [], paActions = [], paByCategory = Map.empty\<rparr>;
             plan = paPlan planned;
             executed =
               (if \<not> dryRunOpt \<and> length plan > 0
                then moveLoop plan (paActions planned)
                       (\<lparr>eaActions = [], eaDone = 0, eaFailed = 0\<rparr>,
                        ensureCategories (fsys s) (normalizePath dirPath) getAllCategories)
                else (\<lparr>eaActions = paActions planned, eaDone = 0, eaFailed = 0\<rparr>, fsys s));
             movedCnt = eaDone (fst executed);
             failedCnt = eaFailed (fst executed);
             newTransaction =
               \<lparr>transactionId = tid, txType = Organize,
                 txStatus = (if dryRunOpt then Pending
                             else if failedCnt = 0 then Completed else PartiallyCompleted),
                 actions = eaActions (fst executed),
                 summary = \<lparr>movedCount = movedCnt, deletedCount = 0, restoredCount = 0,
                             failedCount = failedCnt, savedBytes = 0,
                             totalProcessed = length plan\<rparr>,
                 targetPath = dirPath, dryRun = dryRunOpt, strategy = None, createdAt = now,
                 completedAt = (if dryRunOpt then None else Some now),
                 rolledBackAt = None, rollbackTransactionId = None\<rparr>
         in case saveNew (ledger s) newTransaction of
              Inl e \<Rightarrow> (Inl e, s\<lparr>fsys := snd executed\<rparr>)
            | Inr store1 \<Rightarrow>
                (Inr \<lparr>orTransactionId = tid, orTargetPath = dirPath, orDryRun = dryRunOpt,
                      orPlan = plan,
                      orSummary = \<lparr>osTotalFiles = length plan, osMovedCount = movedCnt,
                                    osFailedCount = failedCnt,
                                    osByCategory = paByCategory planned\<rparr>\<rparr>,
                 \<lparr>fsys = snd executed, ledger = store1\<rparr>)))"


section \<open>Deleting safely (\<open>safeDelete\<close>)\<close>

record deleteResult =
  drSuccess :: bool
  drPath :: path
  drMovedToTrash :: bool
  drTrashPath :: "path option"
  drError :: "string option"

text \<open>
  \<open>safeDelete\<close>. \<open>trashDir\<close> is \<open>env.trashPath\<close> and \<open>timestamp\<close> what \<open>Date.now()\<close>
  returns in the call. The error text of a failed \<open>unlinkSync\<close> is the message of the
  error (here the name of its code).
\<close>

definition safeDelete ::
  "filesystem \<Rightarrow> path \<Rightarrow> nat \<Rightarrow> path \<Rightarrow> bool \<Rightarrow> deleteResult \<times> filesystem" where
  "safeDelete fs trashDir timestamp filePath moveToTrash =
     (if \<not> existsSync fs filePath
      then (\<lparr>drSuccess = False, drPath = filePath, drMovedToTrash = False, drTrashPath = None,
              drError = Some ''File does not exist''\<rparr>, fs)
      else if moveToTrash
      then
        (case ensureDirectory fs trashDir of
           (ok, fs1) \<Rightarrow>
             (let fileName = basename filePath;
                  trashFilePath = join trashDir (showNat timestamp @ ''_'' @ fileName)
              in case safeMove fs1 filePath trashFilePath True of
                   (moveRes, fs2) \<Rightarrow>
                     if mrSuccess moveRes
                     then (\<lparr>drSuccess = True, drPath = filePath, drMovedToTrash = True,
                             drTrashPath = Some (mrTo moveRes), drError = None\<rparr>, fs2)
                     else (\<lparr>drSuccess = False, drPath = filePath, drMovedToTrash = False,
                             drTrashPath = None, drError = mrError moveRes\<rparr>, fs2)))
      else
        (case unlinkSync fs filePath of
           Inr fs' \<Rightarrow>
             (\<lparr>drSuccess = True, drPath = filePath, drMovedToTrash = False, drTrashPath = None,
               drError = None\<rparr>, fs')
         | Inl e \<Rightarrow>
             (\<lparr>drSuccess = False, drPath = filePath, drMovedToTrash = False, drTrashPath = None,
               drError = Some (errnoName e)\<rparr>, fs)))"

section \<open>The deduper\<close>

datatype dedupeStrategy = KeepLatest | KeepOldest | KeepLargest

fun strategyName :: "dedupeStrategy \<Rightarrow> string" where
  "strategyName KeepLatest = ''keep-latest''"
| "strategyName KeepOldest = ''keep-oldest''"
| "strategyName KeepLargest = ''keep-largest''"

text \<open>An entry of the hash map: a file with its size and dates.\<close>

record dupFile =
  dfPath :: path
  dfSize :: nat
  dfCreatedAt :: nat
  dfModifiedAt :: nat

text \<open>\<open>DuplicateInfo\<close>: each file of the group comes with its \<open>isKept\<close> flag.\<close>

record duplicateInfo =
  diHash :: string
  diFiles :: "(dupFile \<times> bool) list"
  diWastedSize :: nat

record dedupeSummary =
  dsTotalDuplicateGroups :: nat
  dsTotalDuplicateFiles :: nat
  dsDeletedCount :: nat
  dsFailedCount :: nat
  dsSavedBytes :: int

record dedupeResult =
  deTransactionId :: string
  deTargetPath :: path
  deDryRun :: bool
  deStrategy :: dedupeStrategy
  deDuplicates :: "duplicateInfo list"
  deSummary :: dedupeSummary

text \<open>
  \<open>calculateFileHash\<close>: the digest of a file's bytes; \<open>None\<close> where the stream fails and
  the promise is rejected.
\<close>

definition calculateFileHash :: "filesystem \<Rightarrow> path \<Rightarrow> string option" where
  "calculateFileHash fs p = (case stat fs p of Some (File st) \<Rightarrow> Some (digest st) | _ \<Rightarrow> None)"

text \<open>
  The hash map is a JavaScript \<open>Map\<close>: its keys in the order of their first insertion.
  \<open>hashMapPush\<close> is \<open>if (!hashMap.has(hash)) hashMap.set(hash, []); hashMap.get(hash).push(f)\<close>.
\<close>

type_synonym hashMap = "(string \<times> dupFile list) list"

fun hashMapPush :: "hashMap \<Rightarrow> string \<Rightarrow> dupFile \<Rightarrow> hashMap" where
  "hashMapPush [] h f = [(h, [f])]"
| "hashMapPush (entry # rest) h f =
     (if fst entry = h then (fst entry, snd entry @ [f]) # rest
      else entry # hashMapPush rest h f)"

definition hashStep :: "filesystem \<Rightarrow> path \<Rightarrow> hashMap \<Rightarrow> hashMap" where
  "hashStep fs filePath hm =
     (case getFileInfo fs filePath of
        None \<Rightarrow> hm
      | Some fileInfo \<Rightarrow>
          if \<not> infoIsFile fileInfo then hm
          else (case calculateFileHash fs filePath of
                  None \<Rightarrow> hm
                | Some h \<Rightarrow>
                    hashMapPush hm h
                      \<lparr>dfPath = filePath, dfSize = infoSize fileInfo,
                        dfCreatedAt = infoCreatedAt fileInfo,
                        dfModifiedAt = infoModifiedAt fileInfo\<rparr>))"

fun hashLoop :: "filesystem \<Rightarrow> path list \<Rightarrow> hashMap \<Rightarrow> hashMap" where
  "hashLoop fs [] hm = hm"
| "hashLoop fs (filePath # rest) hm = hashLoop fs rest (hashStep fs filePath hm)"

text \<open>
  \<open>Array.prototype.sort\<close> with a comparator: a stable sort. An element goes before the
  first one it does not compare greater than, so equal elements keep their order.
\<close>

fun insertBy :: "('a \<Rightarrow> 'a \<Rightarrow> int) \<Rightarrow> 'a \<Rightarrow> 'a list \<Rightarrow> 'a list" where
  "insertBy cmp x [] = [x]"
| "insertBy cmp x (y # ys) = (if cmp x y \<le> 0 then x # y # ys else y # insertBy cmp x ys)"

definition sortBy :: "('a \<Rightarrow> 'a \<Rightarrow> int) \<Rightarrow> 'a list \<Rightarrow> 'a list" where
  "sortBy cmp xs = foldr (insertBy cmp) xs []"

definition sortByStrategy :: "dupFile list \<Rightarrow> dedupeStrategy \<Rightarrow> dupFile list" where
  "sortByStrategy files strat =
     (case strat of
        KeepLatest \<Rightarrow> sortBy (\<lambda>a b. int (dfModifiedAt b) - int (dfModifiedAt a)) files
      | KeepOldest \<Rightarrow> sortBy (\<lambda>a b. int (dfCreatedAt a) - int (dfCreatedAt b)) files
      | KeepLargest \<Rightarrow> sortBy (\<lambda>a b. int (dfSize b) - int (dfSize a)) files)"

text \<open>The loop over the groups: what it has pushed and added up so far.\<close>

record groupAcc =
  gaDuplicates :: "duplicateInfo list"
  gaActions :: "transactionAction list"
  gaTotalDuplicateFiles :: nat
  gaSavedBytes :: nat

fun removalActions ::
  "(nat \<Rightarrow> string) \<Rightarrow> nat \<Rightarrow> path \<Rightarrow> bool \<Rightarrow> string \<Rightarrow> dupFile list \<Rightarrow> transactionAction list" where
  "removalActions sid k trashDir moveToTrash h [] = []"
| "removalActions sid k trashDir moveToTrash h (file # rest) =
     \<lparr>actionId = sid k, actType = Delete, actFrom = dfPath file,
       actTo = (if moveToTrash then join trashDir (basename (dfPath file)) else []),
       actStatus = ActPending, actError = None, fileHash = Some h,
       fileSize = Some (dfSize file)\<rparr>
     # removalActions sid (k + 1) trashDir moveToTrash h rest"

definition groupStep ::
  "(nat \<Rightarrow> string) \<Rightarrow> path \<Rightarrow> bool \<Rightarrow> dedupeStrategy \<Rightarrow> string \<times> dupFile list \<Rightarrow> groupAcc
     \<Rightarrow> groupAcc" where
  "groupStep sid trashDir moveToTrash strat entry acc =
     (case entry of (h, files) \<Rightarrow>
        if length files \<le> 1 then acc
        else
          (let sorted = sortByStrategy files strat;
               toRemove = drop 1 sorted;
               duplicateInfo =
                 \<lparr>diHash = h,
                   diFiles = map (\<lambda>(idx, f). (f, idx = 0)) (enumerate 0 sorted),
                   diWastedSize = sum_list (map dfSize toRemove)\<rparr>
           in acc\<lparr>gaDuplicates := gaDuplicates acc @ [duplicateInfo],
                   gaTotalDuplicateFiles := gaTotalDuplicateFiles acc + length toRemove,
                   gaSavedBytes := gaSavedBytes acc + diWastedSize duplicateInfo,
                   gaActions := gaActions acc @
                     removalActions sid (length (gaActions acc)) trashDir moveToTrash h toRemove\<rparr>))"

fun groupLoop ::
  "(nat \<Rightarrow> string) \<Rightarrow> path \<Rightarrow> bool \<Rightarrow> dedupeStrategy \<Rightarrow> hashMap \<Rightarrow> groupAcc \<Rightarrow> groupAcc" where
  "groupLoop sid trashDir moveToTrash strat [] acc = acc"
| "groupLoop sid trashDir moveToTrash strat (entry # rest) acc =
     groupLoop sid trashDir moveToTrash strat rest
       (groupStep sid trashDir moveToTrash strat entry acc)"

text \<open>
  The loop over the actions: round \<open>i\<close> deletes the file of action \<open>i\<close>, at the clock
  reading \<open>stamp i\<close>, and writes the outcome into the action. \<open>safeDelete\<close> does not throw.
\<close>

definition deleteStep ::
  "path \<Rightarrow> bool \<Rightarrow> nat \<Rightarrow> transactionAction \<Rightarrow> execAcc \<times> filesystem \<Rightarrow> execAcc \<times> filesystem" where
  "deleteStep trashDir moveToTrash timestamp action st =
     (case st of (acc, fs) \<Rightarrow>
        (case safeDelete fs trashDir timestamp (actFrom action) moveToTrash of
           (result, fs') \<Rightarrow>
             if drSuccess result
             then (acc\<lparr>eaDone := eaDone acc + 1,
                        eaActions := eaActions acc @
                          [(case drTrashPath result of
                              Some p \<Rightarrow> if p \<noteq> [] then action\<lparr>actStatus := ActCompleted, actTo := p\<rparr>
                                        else action\<lparr>actStatus := ActCompleted\<rparr>
                            | None \<Rightarrow> action\<lparr>actStatus := ActCompleted\<rparr>)]\<rparr>, fs')
             else (acc\<lparr>eaFailed := eaFailed acc + 1,
                        eaActions := eaActions acc @
                          [action\<lparr>actStatus := ActFailed, actError := drError result\<rparr>]\<rparr>, fs')))"

fun deleteLoop ::
  "path \<Rightarrow> bool \<Rightarrow> (nat \<Rightarrow> nat) \<Rightarrow> nat \<Rightarrow> transactionAction list \<Rightarrow> execAcc \<times> filesystem
     \<Rightarrow> execAcc \<times> filesystem" where
  "deleteLoop trashDir moveToTrash stamp i [] st = st"
| "deleteLoop trashDir moveToTrash stamp i (action # rest) st =
     deleteLoop trashDir moveToTrash stamp (i + 1) rest
       (deleteStep trashDir moveToTrash (stamp i) action st)"

text \<open>
  The saved bytes. Sizes and counts are integers below \<open>2^53\<close>, where the arithmetic of
  JavaScript numbers on integers is exact; the quotient and the product are rounded to
  doubles, which \<open>fl\<close> stands for. \<open>Math.round\<close> rounds to the nearest integer, a half
  upwards.
\<close>

definition mathRound :: "real \<Rightarrow> int" where
  "mathRound x = \<lfloor>x + 1 / 2\<rfloor>"

definition actualSavedBytes :: "(real \<Rightarrow> real) \<Rightarrow> bool \<Rightarrow> nat \<Rightarrow> nat \<Rightarrow> nat \<Rightarrow> real" where
  "actualSavedBytes fl dryRunOpt saved deleted nActions =
     (if dryRunOpt then 0
      else fl (real saved * fl (real deleted / real (if nActions = 0 then 1 else nActions))))"

text \<open>What the theorems ask of the rounding: it is monotone and keeps the integers up to \<open>2^53\<close>.\<close>

definition roundsLikeDouble :: "(real \<Rightarrow> real) \<Rightarrow> bool" where
  "roundsLikeDouble fl =
     ((\<forall>x y. x \<le> y \<longrightarrow> fl x \<le> fl y) \<and> (\<forall>k::nat. k \<le> 2 ^ 53 \<longrightarrow> fl (real k) = real k))"

text \<open>
  \<open>dedupe\<close>. \<open>trashDir\<close> is \<open>env.trashPath\<close>, \<open>tid\<close> the identifier \<open>generateId\<close>
  returns, \<open>sid i\<close> the \<open>i\<close>-th short identifier generated, \<open>stamp i\<close> the clock in
  round \<open>i\<close> of the deletions, \<open>now\<close> the clock at the end. The listing and
  \<open>path.join\<close> take the directory for \<open>normalizePath dirPath\<close>, the records as it is.
\<close>

definition dedupe ::
  "(real \<Rightarrow> real) \<Rightarrow> path \<Rightarrow> state \<Rightarrow> path \<Rightarrow> bool \<Rightarrow> dedupeStrategy \<Rightarrow> bool \<Rightarrow> string
     \<Rightarrow> (nat \<Rightarrow> string) \<Rightarrow> (nat \<Rightarrow> nat) \<Rightarrow> nat \<Rightarrow> (error + dedupeResult) \<times> state" where
  "dedupe fl trashDir s dirPath dryRunOpt strat moveToTrash tid sid stamp now =
     (if \<not> directoryExists (fsys s) dirPath then (Inl DirectoryNotFound, s)
      else
        (let filePaths = getAllFiles (fsys s) (normalizePath dirPath) True None;
             hm = hashLoop (fsys s) filePaths [];
             grouped = groupLoop sid trashDir moveToTrash strat hm
                         \<lparr>gaDuplicates = [], gaActions = [], gaTotalDuplicateFiles = 0,
                           gaSavedBytes = 0\<rparr>;
             planned = gaActions grouped;
             executed =
               (if \<not> dryRunOpt \<and> length planned > 0
                then deleteLoop trashDir moveToTrash stamp 0 planned
                       (\<lparr>eaActions = [], eaDone = 0, eaFailed = 0\<rparr>,
                        (if moveToTrash then snd (ensureDirectory (fsys s) trashDir) else fsys s))
                else (\<lparr>eaActions = planned, eaDone = 0, eaFailed = 0\<rparr>, fsys s));
             deletedCnt = eaDone (fst executed);
             failedCnt = eaFailed (fst executed);
             actualSaved = actualSavedBytes fl dryRunOpt (gaSavedBytes grouped) deletedCnt
                             (length planned);
             newTransaction =
               \<lparr>transactionId = tid, txType = Dedupe,
                 txStatus = (if dryRunOpt then Pending
                             else if failedCnt = 0 then Completed else PartiallyCompleted),
                 actions = eaActions (fst executed),
                 summary = \<lparr>movedCount = 0, deletedCount = deletedCnt, restoredCount = 0,
                             failedCount = failedCnt, savedBytes = mathRound actualSaved,
                             totalProcessed = length planned\<rparr>,
                 targetPath = dirPath, dryRun = dryRunOpt, strategy = Some (strategyName strat),
                 createdAt = now, completedAt = (if dryRunOpt then None else Some now),
                 rolledBackAt = None, rollbackTransactionId = None\<rparr>
         in case saveNew (ledger s) newTransaction of
              Inl e \<Rightarrow> (Inl e, s\<lparr>fsys := snd executed\<rparr>)
            | Inr store1 \<Rightarrow>
                (Inr \<lparr>deTransactionId = tid, deTargetPath = dirPath, deDryRun = dryRunOpt,
                      deStrategy = strat, deDuplicates = gaDuplicates grouped,
                      deSummary =
                        \<lparr>dsTotalDuplicateGroups = length (gaDuplicates grouped),
                          dsTotalDuplicateFiles = gaTotalDuplicateFiles grouped,
                          dsDeletedCount = deletedCnt, dsFailedCount = failedCnt,
                          dsSavedBytes = (if dryRunOpt then int (gaSavedBytes grouped)
                                          else mathRound actualSaved)\<rparr>\<rparr>,
                 \<lparr>fsys = snd executed, ledger = store1\<rparr>)))"

text \<open>Notions the statements below use.\<close>

definition isCompleted :: "transactionAction \<Rightarrow> bool" where
  "isCompleted a = (actStatus a = ActCompleted)"

text \<open>The entry of the hash map for a file, and the files of a listing with one digest, in
  the order of the listing.\<close>

definition fileEntry :: "filesystem \<Rightarrow> path \<Rightarrow> dupFile" where
  "fileEntry fs p =
     (case stat fs p of
        Some (File st) \<Rightarrow>
          \<lparr>dfPath = p, dfSize = size st, dfCreatedAt = birthtime st, dfModifiedAt = mtime st\<rparr>
      | _ \<Rightarrow> \<lparr>dfPath = p, dfSize = 0, dfCreatedAt = 0, dfModifiedAt = 0\<rparr>)"

definition hashGroup :: "filesystem \<Rightarrow> path list \<Rightarrow> string \<Rightarrow> dupFile list" where
  "hashGroup fs filePaths h =
     map (fileEntry fs) (filter (\<lambda>p. calculateFileHash fs p = Some h) filePaths)"

definition hashInv :: "filesystem \<Rightarrow> hashMap \<Rightarrow> path list \<Rightarrow> bool" where
  "hashInv fs hm seen =
     (distinct (map fst hm) \<and>
      (\<forall>h. map_of hm h = (if hashGroup fs seen h = [] then None else Some (hashGroup fs seen h))))"

text \<open>The path \<open>safeDelete\<close> asks for in the trash.\<close>

definition trashName :: "path \<Rightarrow> nat \<Rightarrow> path \<Rightarrow> path" where
  "trashName trashDir ts p = join trashDir (showNat ts @ ''_'' @ basename p)"

text \<open>
  Every deletion into the trash finds a free name: in round \<open>i\<close>, for a file that is there,
  the path that \<open>getUniqueFilename\<close> returns for its name in the trash is that of nothing.
  The rounds are those of \<open>dedupe\<close>, each on the filesystem that the one before has left.
\<close>

fun freeTrashNames :: "filesystem \<Rightarrow> path \<Rightarrow> (nat \<Rightarrow> nat) \<Rightarrow> nat \<Rightarrow> path list \<Rightarrow> bool" where
  "freeTrashNames fs trashDir stamp i [] = True"
| "freeTrashNames fs trashDir stamp i (p # rest) =
     ((\<not> existsSync fs p \<or>
       \<not> existsSync fs (getUniqueFilename fs (trashName trashDir (stamp i) p))) \<and>
      freeTrashNames (snd (safeDelete fs trashDir (stamp i) p True)) trashDir stamp (i + 1) rest)"

text \<open>
  The entries directly in the trash whose names begin with \<open>pre\<close>: how many they are.
\<close>

definition trashEntries :: "filesystem \<Rightarrow> path \<Rightarrow> string \<Rightarrow> nat" where
  "trashEntries fs trashDir pre =
     card (set (filter (\<lambda>q. isChild trashDir q \<and> prefix pre (last q)) (map fst fs)))"

text \<open>The number that a string of decimal digits denotes.\<close>

definition readNat :: "string \<Rightarrow> nat" where
  "readNat s = foldl (\<lambda>a ch. 10 * a + (of_char ch - 48)) 0 s"

section \<open>A ledger and a filesystem to run the services on\<close>

definition exampleFile :: stats where
  "exampleFile = \<lparr>size = 10, birthtime = 1, mtime = 2, digest = ''h1''\<rparr>"

definition exampleMove :: transactionAction where
  "exampleMove = \<lparr>actionId = ''a1'', actType = Move, actFrom = ['''', ''d'', ''a.pdf''],
     actTo = ['''', ''d'', ''Documents'', ''a.pdf''], actStatus = ActCompleted, actError = None,
     fileHash = None, fileSize = Some 10\<rparr>"

definition exampleFailedMove :: transactionAction where
  "exampleFailedMove = \<lparr>actionId = ''a2'', actType = Move, actFrom = ['''', ''d'', ''b.txt''],
     actTo = ['''', ''d'', ''Documents'', ''b.txt''], actStatus = ActFailed,
     actError = Some ''Source file does not exist'', fileHash = None, fileSize = Some 3\<rparr>"

definition exampleGoneMove :: transactionAction where
  "exampleGoneMove = \<lparr>actionId = ''a3'', actType = Move, actFrom = ['''', ''d'', ''c.jpg''],
     actTo = ['''', ''d'', ''Images'', ''c.jpg''], actStatus = ActCompleted,
     actError = None, fileHash = None, fileSize = Some 4\<rparr>"

definition exampleOrganize :: transaction where
  "exampleOrganize = \<lparr>transactionId = ''t1'', txType = Organize, txStatus = PartiallyCompleted,
     actions = [exampleGoneMove, exampleFailedMove, exampleMove],
     summary = \<lparr>movedCount = 2, deletedCount = 0, restoredCount = 0, failedCount = 1,
                 savedBytes = 0, totalProcessed = 3\<rparr>,
     targetPath = ['''', ''d''], dryRun = False, strategy = None, createdAt = 5,
     completedAt = Some 5, rolledBackAt = None, rollbackTransactionId = None\<rparr>"

definition exampleDryRun :: transaction where
  "exampleDryRun = exampleOrganize\<lparr>transactionId := ''t2'', txStatus := Pending, dryRun := True,
     completedAt := None\<rparr>"

definition exampleRolledBack :: transaction where
  "exampleRolledBack = exampleOrganize\<lparr>transactionId := ''t3'', txStatus := RolledBack,
     rolledBackAt := Some 6, rollbackTransactionId := Some ''r0''\<rparr>"

definition exampleState :: state where
  "exampleState = \<lparr>fsys = [(['''' ], Dir), (['''', ''d''], Dir), (['''', ''d'', ''Documents''], Dir),
                            (['''', ''d'', ''Documents'', ''a.pdf''], File exampleFile)],
                    ledger = [exampleOrganize, exampleDryRun, exampleRolledBack]\<rparr>"

definition exampleSid :: "nat \<Rightarrow> string" where
  "exampleSid i = ''s'' @ showNat i"

text \<open>A directory with two copies of one document and a picture, and an empty ledger.\<close>

definition demoFs :: filesystem where
  "demoFs = [(['''' ], Dir), (['''', ''d''], Dir),
     (['''', ''d'', ''a.pdf''], File \<lparr>size = 10, birthtime = 1, mtime = 2, digest = ''h1''\<rparr>),
     (['''', ''d'', ''b.pdf''], File \<lparr>size = 10, birthtime = 3, mtime = 4, digest = ''h1''\<rparr>),
     (['''', ''d'', ''c.jpg''], File \<lparr>size = 7, birthtime = 1, mtime = 1, digest = ''h2''\<rparr>)]"

definition demoState :: state where
  "demoState = \<lparr>fsys = demoFs, ledger = []\<rparr>"

definition demoTrash :: path where
  "demoTrash = ['''', ''home'', ''.deskpilot-trash'']"

text \<open>Three copies of one file, two of them modified at the same time.\<close>

definition tieFs :: filesystem where
  "tieFs = [(['''' ], Dir), (['''', ''d''], Dir),
     (['''', ''d'', ''a.txt''], File \<lparr>size = 4, birthtime = 7, mtime = 5, digest = ''h1''\<rparr>),
     (['''', ''d'', ''b.txt''], File \<lparr>size = 4, birthtime = 3, mtime = 9, digest = ''h1''\<rparr>),
     (['''', ''d'', ''c.txt''], File \<lparr>size = 4, birthtime = 3, mtime = 9, digest = ''h1''\<rparr>),
     (['''', ''d'', ''e.txt''], File \<lparr>size = 6, birthtime = 1, mtime = 1, digest = ''h2''\<rparr>)]"

definition tieState :: state where
  "tieState = \<lparr>fsys = tieFs, ledger = []\<rparr>"

text \<open>A directory with a document in the folder of the images, one in the directory itself,
  and a sound file in a subdirectory.\<close>

definition misfiledFs :: filesystem where
  "misfiledFs = [(['''' ], Dir), (['''', ''d''], Dir), (['''', ''d'', ''Images''], Dir),
     (['''', ''d'', ''Images'', ''report.pdf''],
        File \<lparr>size = 10, birthtime = 1, mtime = 2, digest = ''h1''\<rparr>),
     (['''', ''d'', ''a.pdf''], File \<lparr>size = 5, birthtime = 1, mtime = 2, digest = ''h2''\<rparr>),
     (['''', ''d'', ''sub''], Dir),
     (['''', ''d'', ''sub'', ''x.MP3''], File \<lparr>size = 8, birthtime = 1, mtime = 2, digest = ''h3''\<rparr>)]"

definition misfiledState :: state where
  "misfiledState = \<lparr>fsys = misfiledFs, ledger = []\<rparr>"

text \<open>A directory \<open>/t\<close> that holds \<open>x.txt\<close> and \<open>x_1.txt\<close> to \<open>x_999.txt\<close>, and a
  file \<open>/d/x.txt\<close> to move there.\<close>

definition newFile :: stats where
  "newFile = \<lparr>size = 3, birthtime = 8, mtime = 8, digest = ''new''\<rparr>"

definition oldFile :: stats where
  "oldFile = \<lparr>size = 5, birthtime = 1, mtime = 1, digest = ''old''\<rparr>"

definition crowdedFs :: filesystem where
  "crowdedFs =
     [(['''' ], Dir), (['''', ''d''], Dir), (['''', ''d'', ''x.txt''], File newFile),
      (['''', ''t''], Dir), (['''', ''t'', ''x.txt''], File oldFile)] @
     map (\<lambda>c. (candidate ['''', ''t''] ''x'' ''.txt'' c, File oldFile)) [1..<1000]"

text \<open>
  Three copies of \<open>a.txt\<close> below \<open>/d\<close>, and a trash \<open>/t\<close> that holds \<open>1700_a.txt\<close>.
\<close>

definition trashedFile :: stats where
  "trashedFile = \<lparr>size = 5, birthtime = 1, mtime = 1, digest = ''old''\<rparr>"

definition copyFile :: stats where
  "copyFile = \<lparr>size = 4, birthtime = 2, mtime = 2, digest = ''h1''\<rparr>"

definition roomyTrashFs :: filesystem where
  "roomyTrashFs =
     [(['''' ], Dir), (['''', ''d''], Dir), (['''', ''d'', ''a.txt''], File copyFile),
      (['''', ''d'', ''p''], Dir), (['''', ''d'', ''p'', ''a.txt''], File copyFile),
      (['''', ''d'', ''q''], Dir), (['''', ''d'', ''q'', ''a.txt''], File copyFile),
      (['''', ''t''], Dir), (['''', ''t'', ''1700_a.txt''], File trashedFile)]"

definition roomyState :: state where
  "roomyState = \<lparr>fsys = roomyTrashFs, ledger = []\<rparr>"

section \<open>Facts about the filesystem\<close>

lemma normalizePath_example:
  "normalizePath ['''', ''d''] = ['''', ''d'']"
  "normalizePath ['''', ''d'', ''''] = ['''', ''d'']"
  by code_simp+

lemma walkFrom_normalize:
  assumes "walkFrom fs ('''' # acc) rest = Some q" "''..'' \<notin> set acc"
  shows "q = '''' # foldl (normalizeStep True) acc rest"
  using assms
proof (induction rest arbitrary: acc)
  case Nil
  then show ?case by simp
next
  case (Cons seg rest)
  from Cons.prems(1) have dir: "stat fs ('''' # acc) = Some Dir"
    by (simp split: if_splits)
  show ?case
  proof (cases "seg = '''' \<or> seg = ''.''")
    case True
    with Cons.prems dir have "walkFrom fs ('''' # acc) rest = Some q"
      by auto
    from Cons.IH [OF this Cons.prems(2)] True show ?thesis
      by (auto simp: normalizeStep_def)
  next
    case False
    show ?thesis
    proof (cases "seg = ''..''")
      case True
      have parent: "dirname ('''' # acc) = '''' # butlast acc"
        by (cases acc rule: rev_cases) (simp_all add: dirname_def butlast_append)
      from Cons.prems(1) dir True have "walkFrom fs ('''' # butlast acc) rest = Some q"
        by (simp add: parent)
      moreover have "''..'' \<notin> set (butlast acc)"
        using Cons.prems(2) by (auto dest: in_set_butlastD)
      ultimately have "q = '''' # foldl (normalizeStep True) (butlast acc) rest"
        by (rule Cons.IH)
      moreover have "normalizeStep True acc seg = butlast acc"
        using True Cons.prems(2) by (cases acc rule: rev_cases) (auto simp: normalizeStep_def)
      ultimately show ?thesis
        by simp
    next
      case other: False
      from Cons.prems(1) dir False other have "walkFrom fs ('''' # (acc @ [seg])) rest = Some q"
        by simp
      moreover have "''..'' \<notin> set (acc @ [seg])"
        using Cons.prems(2) other by simp
      ultimately have "q = '''' # foldl (normalizeStep True) (acc @ [seg]) rest"
        by (rule Cons.IH)
      moreover have "normalizeStep True acc seg = acc @ [seg]"
        using False other by (simp add: normalizeStep_def)
      ultimately show ?thesis
        by simp
    qed
  qed
qed

text \<open>Where the filesystem finds a path, it finds it at the normalised path.\<close>

lemma resolvePath_normalizePath: "resolvePath fs p = Some q \<Longrightarrow> q = normalizePath p"
  by (cases p)
    (auto simp: resolvePath_def normalizePath_def root_def split: if_splits
      dest: walkFrom_normalize [where acc = "[]", simplified])

lemma stat_removeEntry: "stat (removeEntry p fs) q = (if q = p then None else stat fs q)"
  by (induction fs) (auto simp: stat_def removeEntry_def)

lemma stat_append_entry:
  "stat (fs @ [(p, n)]) q = (case stat fs q of Some m \<Rightarrow> Some m | None \<Rightarrow> if q = p then Some n else None)"
  by (auto simp: stat_def map_add_def split: option.splits)

lemma uniqueLoop_exhausted:
  assumes "\<forall>c. k \<le> c \<and> c < 1000 \<longrightarrow> existsSync fs (candidate dir b e c)" "k < 1000"
  shows "uniqueLoop fs dir b e k = candidate dir b e 999"
  using assms
proof (induction fs dir b e k rule: uniqueLoop.induct)
  case (1 fs dir baseName ext counter)
  show ?case
  proof (cases "counter + 1 < 1000")
    case True
    with "1.prems" have ex: "existsSync fs (candidate dir baseName ext counter)"
      by simp
    from "1.IH" [OF refl refl] ex True "1.prems"
    have "uniqueLoop fs dir baseName ext (counter + 1) = candidate dir baseName ext 999"
      by simp
    with ex True show ?thesis
      by (subst uniqueLoop.simps) (simp add: Let_def)
  next
    case False
    with "1.prems" have "counter = 999"
      by simp
    with False show ?thesis
      by (subst uniqueLoop.simps) (simp add: Let_def)
  qed
qed

lemma dirname_join: "dir \<noteq> [] \<Longrightarrow> dirname (join dir name) = dir"
  by (simp add: dirname_def join_def)

lemma dirname_nonempty: "p \<noteq> [] \<Longrightarrow> dirname p \<noteq> []"
  by (cases p rule: rev_cases) (auto simp: dirname_def)

lemma renameSync_file:
  assumes "stat fs src = Some (File st)" "stat fs (dirname dst) = Some Dir" "dst \<noteq> []"
    "stat fs dst \<noteq> Some Dir" "src \<noteq> dst"
  shows "renameSync fs src dst = Inr (removeEntry dst (removeEntry src fs) @ [(dst, File st)])"
  using assms by (auto simp: renameSync_def split: option.splits node.splits)

lemma stat_after_rename:
  "stat (removeEntry dst (removeEntry src fs) @ [(dst, n)]) q =
     (if q = dst then Some n else if q = src then None else stat fs q)"
  by (simp add: stat_append_entry stat_removeEntry split: option.splits)

lemma uniqueLoop_first_free:
  assumes "\<forall>c. k \<le> c \<and> c < m \<longrightarrow> existsSync fs (candidate dir b e c)"
    "\<not> existsSync fs (candidate dir b e m)" "k \<le> m" "m < 1000"
  shows "uniqueLoop fs dir b e k = candidate dir b e m"
  using assms
proof (induction fs dir b e k rule: uniqueLoop.induct)
  case (1 fs dir baseName ext counter)
  show ?case
  proof (cases "counter = m")
    case True
    with "1.prems" show ?thesis
      by (subst uniqueLoop.simps) (simp add: Let_def)
  next
    case False
    with "1.prems" have lt: "counter < m" and ex: "existsSync fs (candidate dir baseName ext counter)"
      by simp_all
    show ?thesis
    proof (cases "counter + 1 < 1000")
      case True
      from "1.IH" [OF refl refl] ex True "1.prems" lt
      have "uniqueLoop fs dir baseName ext (counter + 1) = candidate dir baseName ext m"
        by simp
      with ex True show ?thesis
        by (subst uniqueLoop.simps) (simp add: Let_def)
    next
      case False
      with lt "1.prems" show ?thesis
        by simp
    qed
  qed
qed

lemma map_of_map_const:
  "c \<in> set cs \<Longrightarrow> map_of (map (\<lambda>c. (k c, v)) cs) (k c) = Some v"
  by (induction cs) auto

lemma crowded_candidates:
  assumes "1 \<le> c" "c < 1000"
  shows "stat crowdedFs (candidate ['''', ''t''] ''x'' ''.txt'' c) = Some (File oldFile)"
proof -
  have "c \<in> set [1..<1000]"
    using assms by simp
  from map_of_map_const [OF this, of "candidate ['''', ''t''] ''x'' ''.txt''" "File oldFile"]
  show ?thesis
    by (simp add: crowdedFs_def stat_def candidate_def join_def map_add_def)
qed

lemma crowded_paths:
  "dirname ['''', ''t'', ''x.txt''] = ['''', ''t'']"
  "extname ['''', ''t'', ''x.txt''] = ''.txt''"
  "basename_ext ['''', ''t'', ''x.txt''] ''.txt'' = ''x''"
  "candidate ['''', ''t''] ''x'' ''.txt'' 999 = ['''', ''t'', ''x_999.txt'']"
  by code_simp+

section \<open>Facts about the ledger and the rollback loop\<close>

lemma findOne_saveExisting:
  "findOne (saveExisting store t) k =
     (if k = transactionId t then (case findOne store k of None \<Rightarrow> None | Some x \<Rightarrow> Some t)
      else findOne store k)"
  by (induction store) (auto simp: findOne_def)

lemma findOne_append:
  "findOne (store @ [t]) k =
     (case findOne store k of Some x \<Rightarrow> Some x
      | None \<Rightarrow> if transactionId t = k then Some t else None)"
  by (induction store) (auto simp: findOne_def)

lemma findOne_None_iff: "findOne store k = None \<longleftrightarrow> \<not> list_ex (\<lambda>x. transactionId x = k) store"
  by (induction store) (auto simp: findOne_def)

lemma findOne_id: "findOne store k = Some t \<Longrightarrow> transactionId t = k"
  by (induction store) (auto simp: findOne_def split: if_splits)

lemma rollbackStep_paths:
  "map (\<lambda>d. (rdFrom d, rdTo d)) (details (fst (rollbackStep sid a st))) =
     map (\<lambda>d. (rdFrom d, rdTo d)) (details (fst st)) @ [(toOrFrom a, actFrom a)]"
  by (auto simp: rollbackStep_def split: prod.splits)

lemma rollbackLoop_paths:
  "map (\<lambda>d. (rdFrom d, rdTo d)) (details (fst (rollbackLoop sid i as st))) =
     map (\<lambda>d. (rdFrom d, rdTo d)) (details (fst st)) @ map (\<lambda>a. (toOrFrom a, actFrom a)) as"
  by (induction as arbitrary: i st) (simp_all add: rollbackStep_paths)

lemma rollbackStep_actions:
  "map (\<lambda>a. (actType a, actStatus a, actError a)) (rollbackActions (fst (rollbackStep sid a st))) =
     map (\<lambda>a. (actType a, actStatus a, actError a)) (rollbackActions (fst st)) @
       [(Restore, restoreStatus (rdStatus (last (details (fst (rollbackStep sid a st))))),
         rdError (last (details (fst (rollbackStep sid a st)))))]"
  by (auto simp: rollbackStep_def restoreStatus_def split: prod.splits)

lemma rollbackStep_details_last:
  "details (fst (rollbackStep sid a st)) =
     details (fst st) @ [last (details (fst (rollbackStep sid a st)))]"
  by (auto simp: rollbackStep_def split: prod.splits)

lemma rollbackStep_record:
  assumes "map (\<lambda>a. (actType a, actStatus a, actError a)) (rollbackActions (fst st)) =
           map (\<lambda>d. (Restore, restoreStatus (rdStatus d), rdError d)) (details (fst st))"
  shows "map (\<lambda>a. (actType a, actStatus a, actError a)) (rollbackActions (fst (rollbackStep sid a st))) =
         map (\<lambda>d. (Restore, restoreStatus (rdStatus d), rdError d)) (details (fst (rollbackStep sid a st)))"
proof -
  let ?d = "last (details (fst (rollbackStep sid a st)))"
  have "map (\<lambda>d. (Restore, restoreStatus (rdStatus d), rdError d)) (details (fst (rollbackStep sid a st))) =
        map (\<lambda>d. (Restore, restoreStatus (rdStatus d), rdError d)) (details (fst st) @ [?d])"
    using rollbackStep_details_last [of sid a st] by simp
  then show ?thesis
    using assms by (simp add: rollbackStep_actions)
qed

lemma rollbackLoop_record:
  assumes "map (\<lambda>a. (actType a, actStatus a, actError a)) (rollbackActions (fst st)) =
           map (\<lambda>d. (Restore, restoreStatus (rdStatus d), rdError d)) (details (fst st))"
  shows "map (\<lambda>a. (actType a, actStatus a, actError a)) (rollbackActions (fst (rollbackLoop sid i as st))) =
         map (\<lambda>d. (Restore, restoreStatus (rdStatus d), rdError d)) (details (fst (rollbackLoop sid i as st)))"
  using assms
proof (induction as arbitrary: i st)
  case Nil
  then show ?case by simp
next
  case (Cons a as)
  show ?case
    by simp (rule Cons.IH, rule rollbackStep_record, rule Cons.prems)
qed


lemma rollback_eligible:
  assumes "findOne (ledger s) tid = Some t" "txStatus t \<noteq> RolledBack" "\<not> dryRun t"
  shows "fsys (snd (rollback s tid rid sid now)) = snd (rollbackLoop sid 0 (reversedActions t) (emptyAcc, fsys s))"
    and "rollback s tid rid sid now = (Inr r, s') \<Longrightarrow>
           rrDetails r = details (fst (rollbackLoop sid 0 (reversedActions t) (emptyAcc, fsys s)))"
    and "rollback s tid rid sid now = (Inr r, s') \<Longrightarrow>
           totalActions (rrSummary r) = length (reversedActions t)"
  using assms
  by (auto simp: rollback_def Let_def emptyAcc_def split: prod.splits sum.splits)

lemma rollback_written:
  assumes ok: "rollback s tid rid sid now = (Inr r, s')"
  shows "\<exists>t rb. findOne (ledger s) tid = Some t \<and> txStatus t \<noteq> RolledBack \<and> \<not> dryRun t \<and>
           findOne (ledger s') rid = Some rb \<and> transactionId rb = rid \<and> txType rb = Rollback \<and>
           dryRun rb = False \<and> (txStatus rb = Completed \<or> txStatus rb = PartiallyCompleted) \<and>
           actions rb = rollbackActions (fst (rollbackLoop sid 0 (reversedActions t) (emptyAcc, fsys s))) \<and>
           rrDetails r = details (fst (rollbackLoop sid 0 (reversedActions t) (emptyAcc, fsys s)))"
proof -
  from ok obtain t where t: "findOne (ledger s) tid = Some t" "txStatus t \<noteq> RolledBack" "\<not> dryRun t"
    by (auto simp: rollback_def split: option.splits if_splits)
  have tid: "transactionId t = tid" using t(1) by (rule findOne_id)
  obtain acc fs' where loop: "rollbackLoop sid 0 (reversedActions t) (emptyAcc, fsys s) = (acc, fs')"
    by (cases "rollbackLoop sid 0 (reversedActions t) (emptyAcc, fsys s)")
  define rb where "rb = \<lparr>transactionId = rid, txType = Rollback,
                        txStatus = (if accFailed acc = 0 then Completed else PartiallyCompleted),
                        actions = rollbackActions acc,
                        summary = \<lparr>movedCount = 0, deletedCount = 0,
                                    restoredCount = accRestored acc, failedCount = accFailed acc,
                                    savedBytes = 0,
                                    totalProcessed = length (reversedActions t)\<rparr>,
                        targetPath = targetPath t, dryRun = False,
                        strategy = None, createdAt = now, completedAt = Some now,
                        rolledBackAt = None, rollbackTransactionId = None\<rparr>"
  from ok t loop have new: "saveNew (ledger s) rb = Inr (ledger s @ [rb])"
    and l': "ledger s' = saveExisting (ledger s @ [rb]) (t\<lparr>txStatus := RolledBack, rolledBackAt := Some now,
                              rollbackTransactionId := Some rid\<rparr>)"
    and d: "rrDetails r = details acc"
    by (auto simp: rollback_def Let_def emptyAcc_def rb_def saveNew_def split: sum.splits if_splits)
  from new have fresh: "findOne (ledger s) rid = None"
    by (auto simp: saveNew_def findOne_None_iff rb_def split: if_splits)
  with t(1) tid have ne: "rid \<noteq> tid" by auto
  have "findOne (ledger s @ [rb]) rid = Some rb"
    using fresh by (simp add: findOne_append rb_def)
  then have "findOne (ledger s') rid = Some rb"
    using l' ne tid by (simp add: findOne_saveExisting)
  then show ?thesis
    using t loop d by (auto simp: rb_def)
qed

lemma rollback_written_rollbackable:
  assumes "findOne store rid = Some rb" "dryRun rb = False"
    "txStatus rb = Completed \<or> txStatus rb = PartiallyCompleted"
  shows "rb \<in> set (getRollbackableTransactions store)"
proof -
  have ins: "set (insertNewest t ts) = insert t (set ts)" for t ts
  proof -
    have "set (takeWhile (\<lambda>x. createdAt t < createdAt x) ts) \<union>
          set (dropWhile (\<lambda>x. createdAt t < createdAt x) ts) = set ts"
      by (metis set_append takeWhile_dropWhile_id)
    then show ?thesis unfolding insertNewest_def by auto
  qed
  have srt: "set (sortNewestFirst ts) = set ts" for ts
    by (induction ts) (auto simp: sortNewestFirst_def ins)
  from assms(1) have "rb \<in> set store"
    by (auto simp: findOne_def dest: find_Some_iff [THEN iffD1] nth_mem)
  then show ?thesis
    using assms(2,3) by (auto simp: getRollbackableTransactions_def srt)
qed

lemma example_rollback_ok:
  "\<exists>r s'. rollback exampleState ''t1'' ''r1'' exampleSid 9 = (Inr r, s')"
proof -
  have "(case rollback exampleState ''t1'' ''r1'' exampleSid 9 of (Inr r, s') \<Rightarrow> True | _ \<Rightarrow> False)"
    by code_simp
  then show ?thesis
    by (auto split: prod.splits sum.splits)
qed

section \<open>Facts about the listing and the plan of the organizer\<close>

lemma getAllFiles_filter:
  "getAllFiles fs dirPath recursive (Some f) = filter f (getAllFiles fs dirPath recursive None)"
proof (induction fs dirPath recursive "None :: (path \<Rightarrow> bool) option" rule: getAllFiles.induct)
  case (1 fs dirPath recursive)
  show ?case
  proof (cases "stat fs dirPath \<noteq> Some Dir")
    case True
    then show ?thesis
      by (simp add: getAllFiles.simps [of fs dirPath])
  next
    case False
    have step: "(let fullPath = join dirPath (fst entry) in
              case snd entry of
                File st \<Rightarrow>
                  (if (case Some f of None \<Rightarrow> True | Some f \<Rightarrow> f fullPath) then [fullPath] else [])
              | Dir \<Rightarrow>
                  (if recursive \<and> \<not> startsWithDot (fst entry) \<and> fst entry \<noteq> ''node_modules'' \<and>
                      fst entry \<noteq> ''.deskpilot-trash''
                   then getAllFiles fs fullPath recursive (Some f) else [])) =
           filter f (let fullPath = join dirPath (fst entry) in
              case snd entry of
                File st \<Rightarrow>
                  (if (case None of None \<Rightarrow> True | Some f \<Rightarrow> f fullPath) then [fullPath] else [])
              | Dir \<Rightarrow>
                  (if recursive \<and> \<not> startsWithDot (fst entry) \<and> fst entry \<noteq> ''node_modules'' \<and>
                      fst entry \<noteq> ''.deskpilot-trash''
                   then getAllFiles fs fullPath recursive None else []))"
      if "entry \<in> set (readdirSync fs dirPath)" for entry
      using "1" [OF False that] by (auto simp: Let_def split: node.splits)
    show ?thesis
      using False
      by (subst getAllFiles.simps, subst (2) getAllFiles.simps)
         (simp add: filter_concat comp_def step cong: map_cong)
  qed
qed

lemma getAllFiles_are_files:
  "p \<in> set (getAllFiles fs dirPath recursive flt) \<Longrightarrow> \<exists>st. stat fs p = Some (File st)"
proof (induction fs dirPath recursive flt rule: getAllFiles.induct)
  case (1 fs dirPath recursive flt)
  from "1.prems" have dir: "\<not> stat fs dirPath \<noteq> Some Dir"
    by (subst (asm) getAllFiles.simps) (auto split: if_splits)
  from "1.prems" dir obtain entry where
    e: "entry \<in> set (readdirSync fs dirPath)"
    and p: "p \<in> set (let fullPath = join dirPath (fst entry) in
              case snd entry of
                File st \<Rightarrow>
                  (if (case flt of None \<Rightarrow> True | Some f \<Rightarrow> f fullPath) then [fullPath] else [])
              | Dir \<Rightarrow>
                  (if recursive \<and> \<not> startsWithDot (fst entry) \<and> fst entry \<noteq> ''node_modules'' \<and>
                      fst entry \<noteq> ''.deskpilot-trash''
                   then getAllFiles fs fullPath recursive flt else []))"
    by (subst (asm) getAllFiles.simps) auto
  show ?case
  proof (cases "snd entry")
    case (File st)
    with p have "p = join dirPath (fst entry)"
      by (auto simp: Let_def split: if_splits)
    with readdirSync_entry [OF e] File show ?thesis
      by simp
  next
    case Dir
    with p have "p \<in> set (getAllFiles fs (join dirPath (fst entry)) recursive flt)"
      and "recursive \<and> \<not> startsWithDot (fst entry) \<and> fst entry \<noteq> ''node_modules'' \<and>
                      fst entry \<noteq> ''.deskpilot-trash''"
      by (auto simp: Let_def split: if_splits)
    with "1.IH" [OF dir e refl Dir] show ?thesis
      by simp
  qed
qed





lemma getOrganizableFiles_eq:
  "getOrganizableFiles fs dirPath recursive =
     filter (\<lambda>p. notInCategoryFolder p \<and> (recursive \<or> dirname p = dirPath))
       (getAllFiles fs (normalizePath dirPath) recursive None)"
  by (auto simp: getOrganizableFiles_def Let_def getAllFiles_filter intro: filter_cong)

lemma readdirSync_child:
  assumes "entry \<in> set (readdirSync fs dir)"
  shows "dirname (join dir (fst entry)) = dir"
proof -
  from assms obtain e where e: "isChild dir (fst e)" "entry = (last (fst e), snd e)"
    by (auto simp: readdirSync_def)
  from e(1) have "fst e \<noteq> []" "butlast (fst e) = dir" "length (fst e) > 1"
    by (auto simp: isChild_def)
  moreover from this have "join dir (last (fst e)) = fst e"
    using append_butlast_last_id [of "fst e"] by (simp add: join_def)
  ultimately show ?thesis
    using e(2) by (simp add: dirname_def)
qed

text \<open>A listing that is not recursive holds files directly in the directory.\<close>

lemma getAllFiles_flat:
  assumes "p \<in> set (getAllFiles fs dir False flt)"
  shows "dirname p = dir"
proof -
  from assms obtain entry where "entry \<in> set (readdirSync fs dir)" "p = join dir (fst entry)"
    by (subst (asm) getAllFiles.simps)
      (auto simp: Let_def split: if_splits node.splits)
  then show ?thesis
    by (simp add: readdirSync_child)
qed


text \<open>
  When the call is not recursive and the directory is not written in normal form, no
  listed file has it for its \<open>path.dirname\<close>: nothing is kept.
\<close>

lemma getOrganizableFiles_unnormalised:
  assumes "\<not> recursive" "normalizePath dirPath \<noteq> dirPath"
  shows "getOrganizableFiles fs dirPath recursive = []"
proof -
  from assms have "\<forall>p\<in>set (getAllFiles fs (normalizePath dirPath) recursive None). dirname p \<noteq> dirPath"
    by (auto dest: getAllFiles_flat)
  with assms(1) show ?thesis
    unfolding getOrganizableFiles_eq by (simp add: filter_empty_conv)
qed



text \<open>
  A call that is not recursive plans the move of \<open>/d/a.pdf\<close> when the target is written
  \<open>/d\<close>, and nothing when it is written \<open>/d/\<close>.
\<close>

lemma misfiled_flat_plans:
  "(case organize asciiLowerCase misfiledState ['''', ''d''] True False ''t1'' exampleSid 9 of
      (Inr r, s') \<Rightarrow>
        map (\<lambda>i. (opFrom i, opTo i)) (orPlan r) =
          [(['''', ''d'', ''a.pdf''], ['''', ''d'', ''Documents'', ''a.pdf''])]
    | _ \<Rightarrow> False) \<and>
   (case organize asciiLowerCase misfiledState ['''', ''d'', ''''] True False ''t1'' exampleSid 9 of
      (Inr r, s') \<Rightarrow> orPlan r = [] \<and> orTargetPath r = ['''', ''d'', '''']
    | _ \<Rightarrow> False)"
  by code_simp

text \<open>A target that the filesystem does not find, by way of a file: the call throws.\<close>

lemma misfiled_unresolved:
  "(case organize asciiLowerCase misfiledState ['''', ''d'', ''a.pdf'', ''..''] True True ''t1''
           exampleSid 9 of
      (Inl e, s') \<Rightarrow> e = DirectoryNotFound
    | _ \<Rightarrow> False)"
  by code_simp
section \<open>Facts about the plans of the organizer and the deduper\<close>

lemma planStep_pending:
  "list_all (\<lambda>a. actStatus a = ActPending) (paActions acc) \<Longrightarrow>
   list_all (\<lambda>a. actStatus a = ActPending) (paActions (planStep toLower fs dirPath sid filePath acc))"
  by (auto simp: planStep_def Let_def split: option.splits)

lemma planLoop_pending:
  "list_all (\<lambda>a. actStatus a = ActPending) (paActions acc) \<Longrightarrow>
   list_all (\<lambda>a. actStatus a = ActPending) (paActions (planLoop toLower fs dirPath sid filePaths acc))"
  by (induction filePaths arbitrary: acc) (auto intro: planStep_pending)

lemma removalActions_pending:
  "list_all (\<lambda>a. actStatus a = ActPending) (removalActions sid k trashDir moveToTrash h files)"
  by (induction files arbitrary: k) auto

lemma groupStep_pending:
  "list_all (\<lambda>a. actStatus a = ActPending) (gaActions acc) \<Longrightarrow>
   list_all (\<lambda>a. actStatus a = ActPending) (gaActions (groupStep sid trashDir moveToTrash strat entry acc))"
  by (auto simp: groupStep_def Let_def removalActions_pending split: prod.splits)

lemma groupLoop_pending:
  "list_all (\<lambda>a. actStatus a = ActPending) (gaActions acc) \<Longrightarrow>
   list_all (\<lambda>a. actStatus a = ActPending) (gaActions (groupLoop sid trashDir moveToTrash strat hm acc))"
  by (induction hm arbitrary: acc) (auto intro: groupStep_pending)

lemma organize_dry_run:
  "fsys (snd (organize toLower s dirPath True recursive tid sid now)) = fsys s"
  "organize toLower s dirPath True recursive tid sid now = (Inl e, s') \<Longrightarrow> s' = s"
  "organize toLower s dirPath True recursive tid sid now = (Inr r, s') \<Longrightarrow>
     \<exists>t. ledger s' = ledger s @ [t] \<and> transactionId t = tid \<and> txType t = Organize \<and> dryRun t \<and>
         txStatus t = Pending \<and> list_all (\<lambda>a. actStatus a = ActPending) (actions t)"
proof -
  show "fsys (snd (organize toLower s dirPath True recursive tid sid now)) = fsys s"
    by (simp add: organize_def Let_def split: sum.splits)
  show "s' = s" if "organize toLower s dirPath True recursive tid sid now = (Inl e, s')"
    using that by (auto simp: organize_def Let_def split: sum.splits if_splits)
  have pend: "list_all (\<lambda>a. actStatus a = ActPending)
     (paActions (planLoop toLower (fsys s) (normalizePath dirPath) sid (getOrganizableFiles (fsys s) dirPath recursive)
        \<lparr>paPlan = [], paActions = [], paByCategory = Map.empty\<rparr>))"
    by (rule planLoop_pending) simp
  show "\<exists>t. ledger s' = ledger s @ [t] \<and> transactionId t = tid \<and> txType t = Organize \<and> dryRun t \<and>
         txStatus t = Pending \<and> list_all (\<lambda>a. actStatus a = ActPending) (actions t)"
    if "organize toLower s dirPath True recursive tid sid now = (Inr r, s')"
    using that pend
    by (auto simp: organize_def Let_def saveNew_def split: sum.splits if_splits)
qed

lemma dedupe_dry_run:
  "fsys (snd (dedupe fl trashDir s dirPath True strat moveToTrash tid sid stamp now)) = fsys s"
  "dedupe fl trashDir s dirPath True strat moveToTrash tid sid stamp now = (Inl e, s') \<Longrightarrow> s' = s"
  "dedupe fl trashDir s dirPath True strat moveToTrash tid sid stamp now = (Inr r, s') \<Longrightarrow>
     \<exists>t. ledger s' = ledger s @ [t] \<and> transactionId t = tid \<and> txType t = Dedupe \<and> dryRun t \<and>
         txStatus t = Pending \<and> list_all (\<lambda>a. actStatus a = ActPending) (actions t)"
proof -
  show "fsys (snd (dedupe fl trashDir s dirPath True strat moveToTrash tid sid stamp now)) = fsys s"
    by (simp add: dedupe_def Let_def split: sum.splits)
  show "s' = s" if "dedupe fl trashDir s dirPath True strat moveToTrash tid sid stamp now = (Inl e, s')"
    using that by (auto simp: dedupe_def Let_def split: sum.splits if_splits)
  have pend: "list_all (\<lambda>a. actStatus a = ActPending)
     (gaActions (groupLoop sid trashDir moveToTrash strat
        (hashLoop (fsys s) (getAllFiles (fsys s) (normalizePath dirPath) True None) [])
        \<lparr>gaDuplicates = [], gaActions = [], gaTotalDuplicateFiles = 0, gaSavedBytes = 0\<rparr>))"
    by (rule groupLoop_pending) simp
  show "\<exists>t. ledger s' = ledger s @ [t] \<and> transactionId t = tid \<and> txType t = Dedupe \<and> dryRun t \<and>
         txStatus t = Pending \<and> list_all (\<lambda>a. actStatus a = ActPending) (actions t)"
    if "dedupe fl trashDir s dirPath True strat moveToTrash tid sid stamp now = (Inr r, s')"
    using that pend
    by (auto simp: dedupe_def Let_def saveNew_def split: sum.splits if_splits)
qed

lemma demo_organize_dry_ok:
  "\<exists>r s'. organize asciiLowerCase demoState ['''', ''d''] True False ''t1'' exampleSid 9 = (Inr r, s')"
proof -
  have "(case organize asciiLowerCase demoState ['''', ''d''] True False ''t1'' exampleSid 9 of
           (Inr r, s') \<Rightarrow> True | _ \<Rightarrow> False)"
    by code_simp
  then show ?thesis
    by (auto split: prod.splits sum.splits)
qed

lemma demo_dedupe_dry_ok:
  "\<exists>r s'. dedupe id demoTrash demoState ['''', ''d''] True KeepLatest True ''t1'' exampleSid
             (\<lambda>i. 1700) 9 = (Inr r, s')"
proof -
  have "(case dedupe id demoTrash demoState ['''', ''d''] True KeepLatest True ''t1'' exampleSid
             (\<lambda>i. 1700) 9 of
           (Inr r, s') \<Rightarrow> True | _ \<Rightarrow> False)"
    by code_simp
  then show ?thesis
    by (auto split: prod.splits sum.splits)
qed

subsection \<open>The saved bytes\<close>

lemma groupStep_saved:
  "gaSavedBytes acc = sum_list (map diWastedSize (gaDuplicates acc)) \<Longrightarrow>
   gaSavedBytes (groupStep sid trashDir moveToTrash strat entry acc) =
     sum_list (map diWastedSize (gaDuplicates (groupStep sid trashDir moveToTrash strat entry acc)))"
  by (auto simp: groupStep_def Let_def split: prod.splits)

lemma groupLoop_saved:
  "gaSavedBytes acc = sum_list (map diWastedSize (gaDuplicates acc)) \<Longrightarrow>
   gaSavedBytes (groupLoop sid trashDir moveToTrash strat hm acc) =
     sum_list (map diWastedSize (gaDuplicates (groupLoop sid trashDir moveToTrash strat hm acc)))"
  by (induction hm arbitrary: acc) (auto intro: groupStep_saved)

lemma deleteStep_counts:
  assumes "eaDone (fst st) = length (filter isCompleted (eaActions (fst st)))"
  shows "eaDone (fst (deleteStep trashDir moveToTrash ts action st)) =
           length (filter isCompleted (eaActions (fst (deleteStep trashDir moveToTrash ts action st)))) \<and>
         length (eaActions (fst (deleteStep trashDir moveToTrash ts action st))) =
           length (eaActions (fst st)) + 1"
  using assms
  by (cases st) (auto simp: deleteStep_def isCompleted_def split: prod.splits option.splits)

lemma deleteLoop_counts:
  assumes "eaDone (fst st) = length (filter isCompleted (eaActions (fst st)))"
  shows "eaDone (fst (deleteLoop trashDir moveToTrash stamp i as st)) =
           length (filter isCompleted (eaActions (fst (deleteLoop trashDir moveToTrash stamp i as st)))) \<and>
         length (eaActions (fst (deleteLoop trashDir moveToTrash stamp i as st))) =
           length (eaActions (fst st)) + length as"
  using assms
proof (induction as arbitrary: i st)
  case Nil
  then show ?case by simp
next
  case (Cons a as)
  from deleteStep_counts [OF Cons.prems, of trashDir moveToTrash "stamp i" a]
  have step: "eaDone (fst (deleteStep trashDir moveToTrash (stamp i) a st)) =
           length (filter isCompleted (eaActions (fst (deleteStep trashDir moveToTrash (stamp i) a st))))"
    and len: "length (eaActions (fst (deleteStep trashDir moveToTrash (stamp i) a st))) =
           length (eaActions (fst st)) + 1"
    by simp_all
  from Cons.IH [OF step, of "i + 1"] len show ?case
    by simp
qed

lemma mathRound_le:
  assumes "x \<le> real n"
  shows "mathRound x \<le> int n"
proof -
  have "x + 1 / 2 < real_of_int (int n + 1)"
    using assms by simp
  then have "\<lfloor>x + 1 / 2\<rfloor> < int n + 1"
    by (simp only: floor_less_iff)
  then show ?thesis
    by (simp add: mathRound_def)
qed

lemma actualSavedBytes_le:
  assumes fl: "roundsLikeDouble fl" and dn: "deleted \<le> nActions" and big: "saved \<le> 2 ^ 53"
  shows "actualSavedBytes fl dryRunOpt saved deleted nActions \<le> real saved"
proof (cases dryRunOpt)
  case True
  then show ?thesis by (simp add: actualSavedBytes_def)
next
  case False
  let ?n = "if nActions = 0 then 1 else nActions"
  from fl have mono: "\<And>x y. x \<le> y \<Longrightarrow> fl x \<le> fl y"
    and keeps: "\<And>k::nat. k \<le> 2 ^ 53 \<Longrightarrow> fl (real k) = real k"
    by (auto simp: roundsLikeDouble_def)
  have "real deleted / real ?n \<le> real (1::nat)"
    using dn by (simp add: divide_le_eq_1)
  then have "fl (real deleted / real ?n) \<le> fl (real (1::nat))"
    by (rule mono)
  also have "fl (real (1::nat)) = 1"
    using keeps [of 1] by simp
  finally have q: "fl (real deleted / real ?n) \<le> 1" .
  have "real saved * fl (real deleted / real ?n) \<le> real saved * 1"
    using q by (intro mult_left_mono) simp_all
  then have "fl (real saved * fl (real deleted / real ?n)) \<le> fl (real saved)"
    by (intro mono) simp
  also have "fl (real saved) = real saved"
    using big by (rule keeps)
  finally show ?thesis
    using False by (simp add: actualSavedBytes_def)
qed

lemma dedupe_executed:
  assumes ok: "dedupe fl trashDir s dirPath False strat moveToTrash tid sid stamp now = (Inr r, s')"
  shows "\<exists>t. ledger s' = ledger s @ [t] \<and> transactionId t = tid \<and> txType t = Dedupe \<and> \<not> dryRun t \<and>
     savedBytes (summary t) = dsSavedBytes (deSummary r) \<and>
     deletedCount (summary t) = length (filter isCompleted (actions t)) \<and>
     dsSavedBytes (deSummary r) =
       mathRound (actualSavedBytes fl False (sum_list (map diWastedSize (deDuplicates r)))
          (length (filter isCompleted (actions t))) (length (actions t)))"
proof -
  let ?hm = "hashLoop (fsys s) (getAllFiles (fsys s) (normalizePath dirPath) True None) []"
  let ?g = "groupLoop sid trashDir moveToTrash strat ?hm
              \<lparr>gaDuplicates = [], gaActions = [], gaTotalDuplicateFiles = 0, gaSavedBytes = 0\<rparr>"
  let ?fs0 = "if moveToTrash then snd (ensureDirectory (fsys s) trashDir) else fsys s"
  let ?ex = "if length (gaActions ?g) > 0
             then deleteLoop trashDir moveToTrash stamp 0 (gaActions ?g)
                    (\<lparr>eaActions = [], eaDone = 0, eaFailed = 0\<rparr>, ?fs0)
             else (\<lparr>eaActions = gaActions ?g, eaDone = 0, eaFailed = 0\<rparr>, fsys s)"
  have saved: "gaSavedBytes ?g = sum_list (map diWastedSize (gaDuplicates ?g))"
    by (rule groupLoop_saved) simp
  have cnt: "eaDone (fst ?ex) = length (filter isCompleted (eaActions (fst ?ex))) \<and>
             length (eaActions (fst ?ex)) = length (gaActions ?g)"
  proof (cases "length (gaActions ?g) > 0")
    case True
    from deleteLoop_counts [of "(\<lparr>eaActions = [], eaDone = 0, eaFailed = 0\<rparr>, ?fs0)"
        trashDir moveToTrash stamp 0 "gaActions ?g"] True
    show ?thesis by simp
  next
    case False
    then show ?thesis by simp
  qed
  from ok show ?thesis
    using saved cnt
    by (auto simp: dedupe_def Let_def saveNew_def split: sum.splits if_splits)
qed

lemma roundsLikeDouble_id: "roundsLikeDouble id"
  by (simp add: roundsLikeDouble_def)

lemma demo_dedupe_ok:
  "\<exists>r s'. dedupe id demoTrash demoState ['''', ''d''] False KeepLatest True ''t1'' exampleSid
             (\<lambda>i. 1700) 9 = (Inr r, s') \<and>
     sum_list (map diWastedSize (deDuplicates r)) = 10 \<and> dsDeletedCount (deSummary r) = 1"
proof -
  have "(case dedupe id demoTrash demoState ['''', ''d''] False KeepLatest True ''t1'' exampleSid
             (\<lambda>i. 1700) 9 of
           (Inr r, s') \<Rightarrow> sum_list (map diWastedSize (deDuplicates r)) = 10 \<and>
              dsDeletedCount (deSummary r) = 1
         | _ \<Rightarrow> False)"
    by code_simp
  then show ?thesis
    by (auto split: prod.splits sum.splits)
qed

subsection \<open>The stable sort and the groups\<close>

lemma mset_insertBy: "mset (insertBy cmp x ys) = add_mset x (mset ys)"
  by (induction ys) auto

lemma mset_sortBy: "mset (sortBy cmp xs) = mset xs"
  by (induction xs) (auto simp: sortBy_def mset_insertBy)

lemma sortBy_Cons: "sortBy cmp (x # xs) = insertBy cmp x (sortBy cmp xs)"
  by (simp add: sortBy_def)

lemma sortBy_Nil_iff: "sortBy cmp xs = [] \<longleftrightarrow> xs = []"
  using mset_sortBy [of cmp xs] by (metis mset_zero_iff)

lemma hd_insertBy:
  "hd (insertBy cmp x ys) = (if ys = [] \<or> cmp x (hd ys) \<le> 0 then x else hd ys)"
  by (cases ys) auto

text \<open>The head of a stable sort by a key: the first of the elements with the least key.\<close>

lemma hd_sortBy_key:
  fixes key :: "'a \<Rightarrow> int"
  assumes "xs \<noteq> []"
  shows "\<exists>before after. xs = before @ hd (sortBy (\<lambda>a b. key a - key b) xs) # after \<and>
           (\<forall>y\<in>set before. key (hd (sortBy (\<lambda>a b. key a - key b) xs)) < key y) \<and>
           (\<forall>z\<in>set after. key (hd (sortBy (\<lambda>a b. key a - key b) xs)) \<le> key z)"
  using assms
proof (induction xs)
  case Nil
  then show ?case by simp
next
  case (Cons x xs)
  let ?cmp = "\<lambda>a b. key a - key b"
  show ?case
  proof (cases "xs = []")
    case True
    then have "hd (sortBy ?cmp (x # xs)) = x"
      by (simp add: sortBy_def)
    with True show ?thesis
      by (intro exI [of _ "[]"]) simp
  next
    case False
    from Cons.IH [OF False] obtain before after where
      split: "xs = before @ hd (sortBy ?cmp xs) # after"
      and lt: "\<forall>y\<in>set before. key (hd (sortBy ?cmp xs)) < key y"
      and le: "\<forall>z\<in>set after. key (hd (sortBy ?cmp xs)) \<le> key z"
      by blast
    let ?b = "hd (sortBy ?cmp xs)"
    have ne: "sortBy ?cmp xs \<noteq> []"
      using False by (simp add: sortBy_Nil_iff)
    show ?thesis
    proof (cases "key x \<le> key ?b")
      case True
      then have h: "hd (sortBy ?cmp (x # xs)) = x"
        using ne by (simp add: sortBy_Cons hd_insertBy)
      have "\<forall>z\<in>set xs. key x \<le> key z"
      proof
        fix z assume "z \<in> set xs"
        then have "z \<in> set before \<or> z = ?b \<or> z \<in> set after"
          using split by (metis in_set_conv_decomp set_ConsD Un_iff set_append)
        then show "key x \<le> key z"
          using lt le True by auto
      qed
      with h show ?thesis
        by (intro exI [of _ "[]"] exI [of _ xs]) simp
    next
      case False
      then have h: "hd (sortBy ?cmp (x # xs)) = ?b"
        using ne by (simp add: sortBy_Cons hd_insertBy)
      have "x # xs = (x # before) @ ?b # after"
        using split by simp
      moreover have "\<forall>y\<in>set (x # before). key ?b < key y"
        using lt False by auto
      ultimately show ?thesis
        unfolding h using le by blast
    qed
  qed
qed

lemma hashStep_eq:
  "hashStep fs p hm =
     (case calculateFileHash fs p of None \<Rightarrow> hm | Some h \<Rightarrow> hashMapPush hm h (fileEntry fs p))"
  by (auto simp: hashStep_def getFileInfo_def calculateFileHash_def fileEntry_def
      split: option.splits node.splits)

lemma map_of_hashMapPush:
  "map_of (hashMapPush hm h f) =
     (map_of hm)(h \<mapsto> (case map_of hm h of None \<Rightarrow> [f] | Some fs \<Rightarrow> fs @ [f]))"
  by (induction hm) (auto simp: fun_eq_iff)

lemma keys_hashMapPush:
  "map fst (hashMapPush hm h f) = (if h \<in> set (map fst hm) then map fst hm else map fst hm @ [h])"
  by (induction hm) auto

lemma distinct_hashMapPush:
  "distinct (map fst hm) \<Longrightarrow> distinct (map fst (hashMapPush hm h f))"
  by (simp add: keys_hashMapPush)

lemma hashGroup_snoc:
  "hashGroup fs (seen @ [p]) h =
     (if calculateFileHash fs p = Some h then hashGroup fs seen h @ [fileEntry fs p]
      else hashGroup fs seen h)"
  by (simp add: hashGroup_def)

lemma hashStep_inv:
  assumes "hashInv fs hm seen"
  shows "hashInv fs (hashStep fs p hm) (seen @ [p])"
proof (cases "calculateFileHash fs p")
  case None
  then show ?thesis
    using assms by (simp add: hashStep_eq hashInv_def hashGroup_snoc)
next
  case (Some h)
  then show ?thesis
    using assms
    by (auto simp: hashStep_eq hashInv_def hashGroup_snoc distinct_hashMapPush map_of_hashMapPush)
qed

lemma hashLoop_inv:
  "hashInv fs hm seen \<Longrightarrow> hashInv fs (hashLoop fs ps hm) (seen @ ps)"
proof (induction ps arbitrary: hm seen)
  case Nil
  then show ?case by simp
next
  case (Cons p ps)
  from Cons.IH [OF hashStep_inv [OF Cons.prems, of p]] show ?case
    by simp
qed

lemma hashLoop_entry:
  assumes "(h, files) \<in> set (hashLoop fs ps [])"
  shows "files = hashGroup fs ps h"
proof -
  have "hashInv fs [] []"
    by (simp add: hashInv_def hashGroup_def)
  from hashLoop_inv [OF this, of ps] have inv: "hashInv fs (hashLoop fs ps []) ps"
    by simp
  then have d: "distinct (map fst (hashLoop fs ps []))"
    and m: "map_of (hashLoop fs ps []) h =
              (if hashGroup fs ps h = [] then None else Some (hashGroup fs ps h))"
    by (simp_all add: hashInv_def)
  from d assms have "map_of (hashLoop fs ps []) h = Some files"
    by simp
  with m show ?thesis
    by (simp split: if_splits)
qed

lemma flags_enumerate_pos:
  "0 < n \<Longrightarrow> map (\<lambda>(idx, f). (f, idx = 0)) (enumerate n xs) = map (\<lambda>f. (f, False)) xs"
  by (induction xs arbitrary: n) auto

lemma flags_enumerate_Cons:
  "map (\<lambda>(idx, f). (f, idx = 0)) (enumerate 0 (x # xs)) = (x, True) # map (\<lambda>f. (f, False)) xs"
  by (simp add: flags_enumerate_pos)

lemma flags_enumerate:
  assumes "xs \<noteq> []"
  shows "map fst (map (\<lambda>(idx, f). (f, idx = 0)) (enumerate 0 xs)) = xs"
    and "map snd (map (\<lambda>(idx, f). (f, idx = 0)) (enumerate 0 xs)) = True # replicate (length xs - 1) False"
proof -
  from assms obtain y ys where xs: "xs = y # ys"
    by (cases xs) auto
  show "map fst (map (\<lambda>(idx, f). (f, idx = 0)) (enumerate 0 xs)) = xs"
    unfolding xs flags_enumerate_Cons by (simp add: comp_def)
  show "map snd (map (\<lambda>(idx, f). (f, idx = 0)) (enumerate 0 xs)) = True # replicate (length xs - 1) False"
    unfolding xs flags_enumerate_Cons by (simp add: comp_def map_replicate_const)
qed

lemma groupStep_duplicates:
  assumes "d \<in> set (gaDuplicates (groupStep sid trashDir moveToTrash strat entry acc))"
  shows "d \<in> set (gaDuplicates acc) \<or>
         (diHash d = fst entry \<and> length (snd entry) > 1 \<and>
          map fst (diFiles d) = sortByStrategy (snd entry) strat \<and>
          map snd (diFiles d) = True # replicate (length (snd entry) - 1) False \<and>
          diWastedSize d = sum_list (map dfSize (drop 1 (sortByStrategy (snd entry) strat))))"
proof (cases "length (snd entry) \<le> 1")
  case True
  then show ?thesis
    using assms by (cases entry) (simp add: groupStep_def)
next
  case False
  let ?sorted = "sortByStrategy (snd entry) strat"
  let ?info = "\<lparr>diHash = fst entry,
                 diFiles = map (\<lambda>(idx, f). (f, idx = 0)) (enumerate 0 ?sorted),
                 diWastedSize = sum_list (map dfSize (drop 1 ?sorted))\<rparr>"
  have "mset ?sorted = mset (snd entry)"
    by (cases strat) (simp_all add: sortByStrategy_def mset_sortBy)
  then have len: "length ?sorted = length (snd entry)"
    by (rule mset_eq_length)
  with False have ne: "?sorted \<noteq> []"
    by auto
  have dups: "gaDuplicates (groupStep sid trashDir moveToTrash strat entry acc) =
                gaDuplicates acc @ [?info]"
    using False by (cases entry) (simp add: groupStep_def Let_def)
  from assms have "d \<in> set (gaDuplicates acc) \<or> d = ?info"
    unfolding dups by auto
  then show ?thesis
  proof
    assume "d \<in> set (gaDuplicates acc)"
    then show ?thesis ..
  next
    assume d: "d = ?info"
    have "map fst (diFiles d) = ?sorted"
      unfolding d using flags_enumerate(1) [OF ne] by (simp only: duplicateInfo.simps)
    moreover have "map snd (diFiles d) = True # replicate (length (snd entry) - 1) False"
      unfolding d using flags_enumerate(2) [OF ne] by (simp only: duplicateInfo.simps len)
    moreover have "diHash d = fst entry" "diWastedSize d = sum_list (map dfSize (drop 1 ?sorted))"
      unfolding d by simp_all
    ultimately show ?thesis
      using False by simp
  qed
qed

lemma groupLoop_duplicates:
  assumes "d \<in> set (gaDuplicates (groupLoop sid trashDir moveToTrash strat hm acc))"
  shows "d \<in> set (gaDuplicates acc) \<or>
         (\<exists>files. (diHash d, files) \<in> set hm \<and> length files > 1 \<and>
            map fst (diFiles d) = sortByStrategy files strat \<and>
            map snd (diFiles d) = True # replicate (length files - 1) False \<and>
            diWastedSize d = sum_list (map dfSize (drop 1 (sortByStrategy files strat))))"
  using assms
proof (induction hm arbitrary: acc)
  case Nil
  then show ?case by simp
next
  case (Cons entry hm)
  from Cons.prems
  have "d \<in> set (gaDuplicates (groupLoop sid trashDir moveToTrash strat hm
                 (groupStep sid trashDir moveToTrash strat entry acc)))"
    by simp
  from Cons.IH [OF this] show ?case
  proof (elim disjE)
    assume "d \<in> set (gaDuplicates (groupStep sid trashDir moveToTrash strat entry acc))"
    from groupStep_duplicates [OF this] show ?thesis
      by (cases entry) auto
  next
    assume "\<exists>files. (diHash d, files) \<in> set hm \<and> length files > 1 \<and>
            map fst (diFiles d) = sortByStrategy files strat \<and>
            map snd (diFiles d) = True # replicate (length files - 1) False \<and>
            diWastedSize d = sum_list (map dfSize (drop 1 (sortByStrategy files strat)))"
    then show ?thesis by auto
  qed
qed

lemma hd_sortByStrategy:
  assumes "files \<noteq> []"
  shows "\<exists>before after. files = before @ hd (sortByStrategy files strat) # after \<and>
     (case strat of
        KeepLatest \<Rightarrow>
          (\<forall>f\<in>set before. dfModifiedAt f < dfModifiedAt (hd (sortByStrategy files strat))) \<and>
          (\<forall>f\<in>set after. dfModifiedAt f \<le> dfModifiedAt (hd (sortByStrategy files strat)))
      | KeepOldest \<Rightarrow>
          (\<forall>f\<in>set before. dfCreatedAt (hd (sortByStrategy files strat)) < dfCreatedAt f) \<and>
          (\<forall>f\<in>set after. dfCreatedAt (hd (sortByStrategy files strat)) \<le> dfCreatedAt f)
      | KeepLargest \<Rightarrow>
          (\<forall>f\<in>set before. dfSize f < dfSize (hd (sortByStrategy files strat))) \<and>
          (\<forall>f\<in>set after. dfSize f \<le> dfSize (hd (sortByStrategy files strat))))"
proof (cases strat)
  case KeepLatest
  have cmp: "(\<lambda>a b. int (dfModifiedAt b) - int (dfModifiedAt a)) =
             (\<lambda>a b. (- int (dfModifiedAt a)) - (- int (dfModifiedAt b)))"
    by (simp add: fun_eq_iff)
  from hd_sortBy_key [OF assms, of "\<lambda>f. - int (dfModifiedAt f)"]
  show ?thesis
    unfolding KeepLatest sortByStrategy_def cmp by fastforce
next
  case KeepOldest
  from hd_sortBy_key [OF assms, of "\<lambda>f. int (dfCreatedAt f)"]
  show ?thesis
    unfolding KeepOldest sortByStrategy_def by fastforce
next
  case KeepLargest
  have cmp: "(\<lambda>a b. int (dfSize b) - int (dfSize a)) =
             (\<lambda>a b. (- int (dfSize a)) - (- int (dfSize b)))"
    by (simp add: fun_eq_iff)
  from hd_sortBy_key [OF assms, of "\<lambda>f. - int (dfSize f)"]
  show ?thesis
    unfolding KeepLargest sortByStrategy_def cmp by fastforce
qed

lemma one_flag:
  assumes "map snd xs = True # replicate n False"
  shows "filter snd xs = [(fst (hd xs), True)]"
proof -
  from assms obtain y ys where xs: "xs = y # ys" "snd y = True" "map snd ys = replicate n False"
    by (cases xs) auto
  have "\<forall>b\<in>set (map snd ys). b = False"
    unfolding xs(3) by simp
  then have "filter snd ys = []"
    by (auto simp: filter_empty_conv)
  with xs show ?thesis
    by (cases y) simp
qed

lemma dedupe_duplicates:
  assumes "dedupe fl trashDir s dirPath dryRunOpt strat moveToTrash tid sid stamp now = (Inr r, s')"
  shows "deDuplicates r =
     gaDuplicates (groupLoop sid trashDir moveToTrash strat
        (hashLoop (fsys s) (getAllFiles (fsys s) (normalizePath dirPath) True None) [])
        \<lparr>gaDuplicates = [], gaActions = [], gaTotalDuplicateFiles = 0, gaSavedBytes = 0\<rparr>)"
  using assms by (auto simp: dedupe_def Let_def split: if_splits sum.splits)

lemma dedupe_group_kept:
  assumes "dedupe fl trashDir s dirPath dryRunOpt strat moveToTrash tid sid stamp now = (Inr r, s')"
    and "d \<in> set (deDuplicates r)"
  shows "\<exists>kept before after.
     hashGroup (fsys s) (getAllFiles (fsys s) (normalizePath dirPath) True None) (diHash d) = before @ kept # after \<and>
     2 \<le> length (before @ kept # after) \<and>
     mset (map fst (diFiles d)) = mset (before @ kept # after) \<and>
     filter snd (diFiles d) = [(kept, True)] \<and>
     (case strat of
        KeepLatest \<Rightarrow>
          (\<forall>f\<in>set before. dfModifiedAt f < dfModifiedAt kept) \<and>
          (\<forall>f\<in>set after. dfModifiedAt f \<le> dfModifiedAt kept)
      | KeepOldest \<Rightarrow>
          (\<forall>f\<in>set before. dfCreatedAt kept < dfCreatedAt f) \<and>
          (\<forall>f\<in>set after. dfCreatedAt kept \<le> dfCreatedAt f)
      | KeepLargest \<Rightarrow>
          (\<forall>f\<in>set before. dfSize f < dfSize kept) \<and>
          (\<forall>f\<in>set after. dfSize f \<le> dfSize kept))"
proof -
  let ?listing = "getAllFiles (fsys s) (normalizePath dirPath) True None"
  let ?hm = "hashLoop (fsys s) ?listing []"
  from assms(2) dedupe_duplicates [OF assms(1)]
  have "d \<in> set (gaDuplicates (groupLoop sid trashDir moveToTrash strat ?hm
          \<lparr>gaDuplicates = [], gaActions = [], gaTotalDuplicateFiles = 0, gaSavedBytes = 0\<rparr>))"
    by simp
  from groupLoop_duplicates [OF this] obtain files where
    files: "(diHash d, files) \<in> set ?hm" "length files > 1"
      "map fst (diFiles d) = sortByStrategy files strat"
      "map snd (diFiles d) = True # replicate (length files - 1) False"
    by auto
  from hashLoop_entry [OF files(1)] have grp: "files = hashGroup (fsys s) ?listing (diHash d)" .
  from files(2) have ne: "files \<noteq> []"
    by auto
  let ?kept = "hd (sortByStrategy files strat)"
  from hd_sortByStrategy [OF ne, of strat] obtain before after where
    split: "files = before @ ?kept # after"
    and best: "(case strat of
        KeepLatest \<Rightarrow>
          (\<forall>f\<in>set before. dfModifiedAt f < dfModifiedAt ?kept) \<and>
          (\<forall>f\<in>set after. dfModifiedAt f \<le> dfModifiedAt ?kept)
      | KeepOldest \<Rightarrow>
          (\<forall>f\<in>set before. dfCreatedAt ?kept < dfCreatedAt f) \<and>
          (\<forall>f\<in>set after. dfCreatedAt ?kept \<le> dfCreatedAt f)
      | KeepLargest \<Rightarrow>
          (\<forall>f\<in>set before. dfSize f < dfSize ?kept) \<and>
          (\<forall>f\<in>set after. dfSize f \<le> dfSize ?kept))"
    by blast
  have perm: "mset (map fst (diFiles d)) = mset files"
    unfolding files(3) by (cases strat) (simp_all add: sortByStrategy_def mset_sortBy)
  have "diFiles d \<noteq> []"
    using files(4) by auto
  then have "fst (hd (diFiles d)) = hd (map fst (diFiles d))"
    by (simp add: hd_map)
  then have "fst (hd (diFiles d)) = ?kept"
    by (simp only: files(3))
  with one_flag [OF files(4)] have flag: "filter snd (diFiles d) = [(?kept, True)]"
    by simp
  have "hashGroup (fsys s) ?listing (diHash d) = before @ ?kept # after"
    using grp split by simp
  moreover have "2 \<le> length (before @ ?kept # after)"
    using files(2) split by (metis Suc_1 Suc_leI)
  moreover have "mset (map fst (diFiles d)) = mset (before @ ?kept # after)"
    using perm split by simp
  ultimately show ?thesis
    using flag best by blast
qed

lemma groupStep_keeps_duplicates:
  "d \<in> set (gaDuplicates acc) \<Longrightarrow>
   d \<in> set (gaDuplicates (groupStep sid trashDir moveToTrash strat entry acc))"
  by (cases entry) (simp add: groupStep_def Let_def)

lemma groupLoop_keeps_duplicates:
  "d \<in> set (gaDuplicates acc) \<Longrightarrow>
   d \<in> set (gaDuplicates (groupLoop sid trashDir moveToTrash strat hm acc))"
  by (induction hm arbitrary: acc) (auto intro: groupStep_keeps_duplicates)

lemma groupLoop_covers:
  assumes "(h, files) \<in> set hm" "length files > 1"
  shows "\<exists>d\<in>set (gaDuplicates (groupLoop sid trashDir moveToTrash strat hm acc)). diHash d = h"
  using assms
proof (induction hm arbitrary: acc)
  case Nil
  then show ?case by simp
next
  case (Cons entry hm)
  show ?case
  proof (cases "entry = (h, files)")
    case True
    with Cons.prems(2)
    have "\<exists>d\<in>set (gaDuplicates (groupStep sid trashDir moveToTrash strat entry acc)). diHash d = h"
      by (simp add: groupStep_def Let_def)
    then obtain d where "d \<in> set (gaDuplicates (groupStep sid trashDir moveToTrash strat entry acc))"
      "diHash d = h"
      by blast
    with groupLoop_keeps_duplicates [of d "groupStep sid trashDir moveToTrash strat entry acc"]
    show ?thesis
      by auto
  next
    case False
    with Cons.prems have "(h, files) \<in> set hm"
      by simp
    from Cons.IH [OF this Cons.prems(2)] show ?thesis
      by simp
  qed
qed

lemma hashLoop_covers:
  assumes "hashGroup fs ps h \<noteq> []"
  shows "(h, hashGroup fs ps h) \<in> set (hashLoop fs ps [])"
proof -
  have "hashInv fs [] []"
    by (simp add: hashInv_def hashGroup_def)
  from hashLoop_inv [OF this, of ps] have inv: "hashInv fs (hashLoop fs ps []) ps"
    by simp
  then have "map_of (hashLoop fs ps []) h = Some (hashGroup fs ps h)"
    using assms by (simp add: hashInv_def)
  then show ?thesis
    by (rule map_of_SomeD)
qed

lemma dedupe_covers:
  assumes "dedupe fl trashDir s dirPath dryRunOpt strat moveToTrash tid sid stamp now = (Inr r, s')"
    and "2 \<le> length (hashGroup (fsys s) (getAllFiles (fsys s) (normalizePath dirPath) True None) h)"
  shows "\<exists>d\<in>set (deDuplicates r). diHash d = h"
proof -
  from assms(2) have "hashGroup (fsys s) (getAllFiles (fsys s) (normalizePath dirPath) True None) h \<noteq> []"
    by auto
  from hashLoop_covers [OF this] assms(2) show ?thesis
    unfolding dedupe_duplicates [OF assms(1)]
    by (intro groupLoop_covers) auto
qed

lemma tie_dedupe_ok:
  "\<exists>r s'. dedupe id demoTrash tieState ['''', ''d''] True KeepLatest True ''t1'' exampleSid
             (\<lambda>i. 1700) 9 = (Inr r, s') \<and>
     map (\<lambda>d. (diHash d, map (\<lambda>x. (dfPath (fst x), snd x)) (diFiles d))) (deDuplicates r) =
       [(''h1'', [(['''', ''d'', ''b.txt''], True), (['''', ''d'', ''c.txt''], False),
                  (['''', ''d'', ''a.txt''], False)])]"
proof -
  have "(case dedupe id demoTrash tieState ['''', ''d''] True KeepLatest True ''t1'' exampleSid
             (\<lambda>i. 1700) 9 of
           (Inr r, s') \<Rightarrow>
             map (\<lambda>d. (diHash d, map (\<lambda>x. (dfPath (fst x), snd x)) (diFiles d))) (deDuplicates r) =
               [(''h1'', [(['''', ''d'', ''b.txt''], True), (['''', ''d'', ''c.txt''], False),
                  (['''', ''d'', ''a.txt''], False)])]
         | _ \<Rightarrow> False)"
    by code_simp
  then show ?thesis
    by (auto split: prod.splits sum.splits)
qed

lemma tie_group:
  "map dfPath (hashGroup tieFs (getAllFiles tieFs ['''', ''d''] True None) ''h1'') =
     [['''', ''d'', ''a.txt''], ['''', ''d'', ''b.txt''], ['''', ''d'', ''c.txt'']]"
  by code_simp

section \<open>Facts about deleting into the trash and restoring\<close>

lemma ensureDirectory_there: "stat fs p = Some Dir \<Longrightarrow> ensureDirectory fs p = (True, fs)"
  by (simp add: ensureDirectory_def existsSync_def)

lemma safeMove_renames:
  assumes "stat fs src = Some (File st)" "stat fs (dirname dst) = Some Dir" "dst \<noteq> []"
    and "finalTo = (if handleCollision \<and> existsSync fs dst then getUniqueFilename fs dst else dst)"
    and "finalTo \<noteq> []" "dirname finalTo = dirname dst" "stat fs finalTo \<noteq> Some Dir" "src \<noteq> finalTo"
  shows "safeMove fs src dst handleCollision =
           (\<lparr>mrSuccess = True, mrFrom = src, mrTo = finalTo, mrError = None\<rparr>,
            removeEntry finalTo (removeEntry src fs) @ [(finalTo, File st)])"
proof -
  have ren: "renameSync fs src finalTo =
               Inr (removeEntry finalTo (removeEntry src fs) @ [(finalTo, File st)])"
    using assms by (intro renameSync_file) simp_all
  show ?thesis
    using assms(1) assms(4) [symmetric] ren
    by (simp add: safeMove_def existsSync_def ensureDirectory_there [OF assms(2)] Let_def)
qed

lemma safeDelete_to_trash:
  assumes "stat fs src = Some (File st)" "stat fs trashDir = Some Dir"
    and "safeMove fs src (join trashDir (showNat ts @ ''_'' @ basename src)) True =
           (\<lparr>mrSuccess = True, mrFrom = src, mrTo = dst, mrError = None\<rparr>, fs')"
  shows "safeDelete fs trashDir ts src True =
           (\<lparr>drSuccess = True, drPath = src, drMovedToTrash = True, drTrashPath = Some dst,
             drError = None\<rparr>, fs')"
  using assms
  by (simp add: safeDelete_def existsSync_def ensureDirectory_there Let_def)

lemma candidate_parent: "dir \<noteq> [] \<Longrightarrow> dirname (candidate dir b e c) = dir"
  by (simp add: candidate_def dirname_join)

lemma candidate_nonempty: "candidate dir b e c \<noteq> []"
  by (simp add: candidate_def join_def)

lemma deleteStep_to_trash:
  assumes "safeDelete fs trashDir ts (actFrom action) True =
             (\<lparr>drSuccess = True, drPath = actFrom action, drMovedToTrash = True,
               drTrashPath = Some dst, drError = None\<rparr>, fs')" "dst \<noteq> []"
  shows "deleteStep trashDir True ts action (acc, fs) =
           (acc\<lparr>eaDone := eaDone acc + 1,
                 eaActions := eaActions acc @ [action\<lparr>actStatus := ActCompleted, actTo := dst\<rparr>]\<rparr>,
            fs')"
  using assms by (simp add: deleteStep_def)

lemma mkdirFrom_keeps:
  "mkdirFrom fs done rest = Inr fs' \<Longrightarrow> stat fs k = Some v \<Longrightarrow> stat fs' k = Some v"
proof (induction rest arbitrary: fs "done")
  case Nil
  then show ?case by simp
next
  case (Cons s rest)
  show ?case
  proof (cases "stat fs (done @ [s])")
    case None
    with Cons.prems(1) have "mkdirFrom (fs @ [(done @ [s], Dir)]) (done @ [s]) rest = Inr fs'"
      by (simp add: Let_def)
    moreover have "stat (fs @ [(done @ [s], Dir)]) k = Some v"
      using Cons.prems(2) by (simp add: stat_append_entry)
    ultimately show ?thesis
      by (rule Cons.IH)
  next
    case (Some n)
    with Cons.prems(1) have "n = Dir" "mkdirFrom fs (done @ [s]) rest = Inr fs'"
      by (cases n; simp add: Let_def)+
    from Cons.IH [OF this(2) Cons.prems(2)] show ?thesis .
  qed
qed

lemma mkdirFrom_dir:
  "mkdirFrom fs done rest = Inr fs' \<Longrightarrow> rest \<noteq> [] \<Longrightarrow> stat fs' (done @ rest) = Some Dir"
proof (induction rest arbitrary: fs "done")
  case Nil
  then show ?case by simp
next
  case (Cons s rest)
  let ?q = "done @ [s]"
  obtain fs1 where fs1: "mkdirFrom fs1 ?q rest = Inr fs'" "stat fs1 ?q = Some Dir"
  proof (cases "stat fs ?q")
    case None
    with Cons.prems(1) have "mkdirFrom (fs @ [(?q, Dir)]) ?q rest = Inr fs'"
      by (simp add: Let_def)
    moreover have "stat (fs @ [(?q, Dir)]) ?q = Some Dir"
      using None by (simp add: stat_append_entry)
    ultimately show ?thesis
      by (rule that)
  next
    case (Some n)
    with Cons.prems(1) have "n = Dir" "mkdirFrom fs ?q rest = Inr fs'"
      by (cases n; simp add: Let_def)+
    with Some show ?thesis
      by (intro that) simp_all
  qed
  show ?case
  proof (cases "rest = []")
    case True
    with fs1 show ?thesis by simp
  next
    case False
    from Cons.IH [OF fs1(1) this] show ?thesis by simp
  qed
qed

lemma ensureDirectory_keeps:
  "stat fs k = Some v \<Longrightarrow> stat (snd (ensureDirectory fs p)) k = Some v"
  by (auto simp: ensureDirectory_def mkdirSync_def split: sum.splits dest: mkdirFrom_keeps)

text \<open>\<open>ensureDirectory\<close> leaves a directory behind, or the filesystem as it was.\<close>

lemma ensureDirectory_cases:
  "stat (snd (ensureDirectory fs p)) p = Some Dir \<or>
   (snd (ensureDirectory fs p) = fs \<and> stat fs p \<noteq> Some Dir \<and>
    (stat fs p = None \<longrightarrow> ensureDirectory fs p = (False, fs)))"
proof (cases "existsSync fs p")
  case True
  then show ?thesis
    by (auto simp: ensureDirectory_def existsSync_def)
next
  case False
  show ?thesis
  proof (cases "mkdirSync fs p")
    case (Inl e)
    with False show ?thesis
      by (simp add: ensureDirectory_def existsSync_def)
  next
    case (Inr fs')
    then have "p \<noteq> []" "mkdirFrom fs [] p = Inr fs'"
      by (auto simp: mkdirSync_def split: if_splits)
    from mkdirFrom_dir [OF this(2) this(1)] Inr False show ?thesis
      by (simp add: ensureDirectory_def)
  qed
qed

lemma getAllFiles_parent:
  "p \<in> set (getAllFiles fs dirPath recursive flt) \<Longrightarrow> stat fs (dirname p) = Some Dir"
proof (induction fs dirPath recursive flt rule: getAllFiles.induct)
  case (1 fs dirPath recursive flt)
  from "1.prems" have dir: "\<not> stat fs dirPath \<noteq> Some Dir"
    by (subst (asm) getAllFiles.simps) (auto split: if_splits)
  from "1.prems" dir obtain entry where
    e: "entry \<in> set (readdirSync fs dirPath)"
    and p: "p \<in> set (let fullPath = join dirPath (fst entry) in
              case snd entry of
                File st \<Rightarrow>
                  (if (case flt of None \<Rightarrow> True | Some f \<Rightarrow> f fullPath) then [fullPath] else [])
              | Dir \<Rightarrow>
                  (if recursive \<and> \<not> startsWithDot (fst entry) \<and> fst entry \<noteq> ''node_modules'' \<and>
                      fst entry \<noteq> ''.deskpilot-trash''
                   then getAllFiles fs fullPath recursive flt else []))"
    by (subst (asm) getAllFiles.simps) auto
  show ?case
  proof (cases "snd entry")
    case (File st)
    with p have "p = join dirPath (fst entry)"
      by (simp add: Let_def split: if_splits)
    with readdirSync_child [OF e] dir show ?thesis
      by simp
  next
    case Dir
    with p have "p \<in> set (getAllFiles fs (join dirPath (fst entry)) recursive flt)"
      and "recursive \<and> \<not> startsWithDot (fst entry) \<and> fst entry \<noteq> ''node_modules'' \<and>
                      fst entry \<noteq> ''.deskpilot-trash''"
      by (auto simp: Let_def split: if_splits)
    with "1.IH" [OF dir e refl Dir] show ?thesis
      by simp
  qed
qed

lemma removalActions_from:
  "map actFrom (removalActions sid k trashDir moveToTrash h files) = map dfPath files"
  by (induction files arbitrary: k) auto

lemma set_sortByStrategy: "set (sortByStrategy files strat) = set files"
proof -
  have "mset (sortByStrategy files strat) = mset files"
    by (cases strat) (simp_all add: sortByStrategy_def mset_sortBy)
  then show ?thesis
    by (rule mset_eq_setD)
qed

lemma groupStep_from:
  assumes "\<forall>f\<in>set (snd entry). dfPath f \<in> P" "\<forall>a\<in>set (gaActions acc). actFrom a \<in> P"
  shows "\<forall>a\<in>set (gaActions (groupStep sid trashDir moveToTrash strat entry acc)). actFrom a \<in> P"
proof (cases entry)
  case (Pair h files)
  have "set (map actFrom (removalActions sid (length (gaActions acc)) trashDir moveToTrash h
          (drop 1 (sortByStrategy files strat)))) \<subseteq> dfPath ` set files"
    unfolding removalActions_from using set_drop_subset [of 1 "sortByStrategy files strat"]
    by (auto simp: set_sortByStrategy)
  with assms Pair show ?thesis
    by (auto simp: groupStep_def Let_def)
qed

lemma groupLoop_from:
  assumes "\<forall>entry\<in>set hm. \<forall>f\<in>set (snd entry). dfPath f \<in> P"
    "\<forall>a\<in>set (gaActions acc). actFrom a \<in> P"
  shows "\<forall>a\<in>set (gaActions (groupLoop sid trashDir moveToTrash strat hm acc)). actFrom a \<in> P"
  using assms
proof (induction hm arbitrary: acc)
  case Nil
  then show ?case by simp
next
  case (Cons entry hm)
  from Cons.prems have "\<forall>f\<in>set (snd entry). dfPath f \<in> P"
    by simp
  from groupStep_from [OF this Cons.prems(2), of sid trashDir moveToTrash strat]
  have "\<forall>a\<in>set (gaActions (groupStep sid trashDir moveToTrash strat entry acc)). actFrom a \<in> P" .
  from Cons.IH [OF _ this] Cons.prems(1) show ?case
    by simp
qed

lemma hashLoop_paths:
  assumes "entry \<in> set (hashLoop fs ps [])" "f \<in> set (snd entry)"
  shows "dfPath f \<in> set ps"
proof -
  from assms(1) have "snd entry = hashGroup fs ps (fst entry)"
    by (intro hashLoop_entry) simp
  with assms(2) obtain p where "p \<in> set ps" "f = fileEntry fs p"
    by (auto simp: hashGroup_def)
  then show ?thesis
    by (auto simp: fileEntry_def split: option.splits node.splits)
qed

text \<open>The files that \<open>dedupe\<close> plans to remove are files of the listing.\<close>

lemma planned_listed:
  assumes "a \<in> set (gaActions (groupLoop sid trashDir moveToTrash strat (hashLoop fs ps [])
             \<lparr>gaDuplicates = [], gaActions = [], gaTotalDuplicateFiles = 0, gaSavedBytes = 0\<rparr>))"
  shows "actFrom a \<in> set ps"
proof -
  have "\<forall>entry\<in>set (hashLoop fs ps []). \<forall>f\<in>set (snd entry). dfPath f \<in> set ps"
    by (auto dest: hashLoop_paths)
  from groupLoop_from [OF this, of "\<lparr>gaDuplicates = [], gaActions = [], gaTotalDuplicateFiles = 0,
      gaSavedBytes = 0\<rparr>" sid trashDir moveToTrash strat] assms show ?thesis
    by simp
qed

lemma uniqueLoop_candidate: "\<exists>c. uniqueLoop fs dir b e k = candidate dir b e c"
proof (induction fs dir b e k rule: uniqueLoop.induct)
  case (1 fs dir baseName ext counter)
  show ?case
  proof (cases "existsSync fs (candidate dir baseName ext counter) \<and> counter + 1 < 1000")
    case True
    with "1.IH" [OF refl refl] obtain c where
      "uniqueLoop fs dir baseName ext (counter + 1) = candidate dir baseName ext c"
      by auto
    with True show ?thesis
      by (subst uniqueLoop.simps) (auto simp: Let_def)
  next
    case False
    then show ?thesis
      by (subst uniqueLoop.simps) (auto simp: Let_def)
  qed
qed

lemma getUniqueFilename_parent:
  assumes "length p > 1"
  shows "dirname (getUniqueFilename fs p) = dirname p" "getUniqueFilename fs p \<noteq> []"
proof -
  obtain c where c: "uniqueLoop fs (dirname p) (basename_ext p (extname p)) (extname p) 1 =
      candidate (dirname p) (basename_ext p (extname p)) (extname p) c"
    using uniqueLoop_candidate by blast
  have ne: "dirname p \<noteq> []"
    using assms by (intro dirname_nonempty) auto
  show "dirname (getUniqueFilename fs p) = dirname p"
    using c ne by (simp add: getUniqueFilename_def Let_def candidate_parent)
  show "getUniqueFilename fs p \<noteq> []"
    using c assms by (auto simp: getUniqueFilename_def Let_def candidate_nonempty)
qed

lemma trashName_parent:
  "trashDir \<noteq> [] \<Longrightarrow> dirname (trashName trashDir ts p) = trashDir"
  "trashDir \<noteq> [] \<Longrightarrow> length (trashName trashDir ts p) > 1"
  by (simp_all add: trashName_def dirname_join) (cases trashDir; simp add: join_def)

text \<open>A deletion into the trash that finds a free name moves the file there.\<close>

lemma safeDelete_free:
  assumes isfile: "stat fs p = Some (File st)"
    and trash: "stat fs trashDir = Some Dir" "trashDir \<noteq> []"
    and g_def: "g = getUniqueFilename fs (trashName trashDir ts p)"
    and free: "\<not> existsSync fs g"
  shows "\<exists>fs'. safeDelete fs trashDir ts p True =
           (\<lparr>drSuccess = True, drPath = p, drMovedToTrash = True, drTrashPath = Some g,
             drError = None\<rparr>, fs') \<and>
           (\<forall>q. stat fs' q = (if q = g then Some (File st) else if q = p then None else stat fs q))"
    and "g \<noteq> []" and "g \<noteq> p" and "g \<noteq> trashDir"
proof -
  let ?tp = "trashName trashDir ts p"
  have len: "length ?tp > 1" and par: "dirname ?tp = trashDir"
    using trash(2) by (rule trashName_parent)+
  show ne: "g \<noteq> []"
    unfolding g_def using len by (rule getUniqueFilename_parent)
  have gpar: "dirname g = dirname ?tp"
    unfolding g_def using len by (rule getUniqueFilename_parent)
  have nog: "stat fs g = None"
    using free by (simp add: existsSync_def)
  show "g \<noteq> p" "g \<noteq> trashDir"
    using nog isfile trash by auto
  have fin: "g = (if True \<and> existsSync fs ?tp then getUniqueFilename fs ?tp else ?tp)"
    by (simp add: g_def getUniqueFilename_def)
  have "?tp \<noteq> []"
    using len by auto
  from safeMove_renames [OF isfile _ this fin ne gpar]
  have mv: "safeMove fs p ?tp True =
          (\<lparr>mrSuccess = True, mrFrom = p, mrTo = g, mrError = None\<rparr>,
           removeEntry g (removeEntry p fs) @ [(g, File st)])"
    using par trash nog \<open>g \<noteq> p\<close> by simp
  have "safeDelete fs trashDir ts p True =
           (\<lparr>drSuccess = True, drPath = p, drMovedToTrash = True, drTrashPath = Some g,
             drError = None\<rparr>, removeEntry g (removeEntry p fs) @ [(g, File st)])"
    using mv by (intro safeDelete_to_trash [OF isfile trash(1)]) (simp add: trashName_def)
  then show "\<exists>fs'. safeDelete fs trashDir ts p True =
           (\<lparr>drSuccess = True, drPath = p, drMovedToTrash = True, drTrashPath = Some g,
             drError = None\<rparr>, fs') \<and>
           (\<forall>q. stat fs' q = (if q = g then Some (File st) else if q = p then None else stat fs q))"
    by (simp add: stat_after_rename)
qed

text \<open>Without a directory for the trash, a deletion into it fails and changes nothing.\<close>

lemma rename_needs_parent:
  assumes "stat fs (dirname dst) \<noteq> Some Dir"
  shows "\<exists>e. renameSync fs src dst = Inl e" "\<exists>e. copyFileSync fs src dst = Inl e"
  using assms
  by (auto simp: renameSync_def copyFileSync_def split: option.splits node.splits)

lemma safeMove_no_parent:
  assumes "stat fs (dirname dst) \<noteq> Some Dir" "snd (ensureDirectory fs (dirname dst)) = fs"
    "length dst > 1"
  shows "\<not> mrSuccess (fst (safeMove fs src dst True))" "snd (safeMove fs src dst True) = fs"
proof -
  let ?fin = "if True \<and> existsSync fs dst then getUniqueFilename fs dst else dst"
  have "dirname ?fin = dirname dst"
    using getUniqueFilename_parent(1) [OF assms(3), of fs] by simp
  with assms(1) have "stat fs (dirname ?fin) \<noteq> Some Dir"
    by simp
  from rename_needs_parent [OF this, of src] obtain e1 e2 where
    fails: "renameSync fs src ?fin = Inl e1" "copyFileSync fs src ?fin = Inl e2"
    by blast
  obtain ok where ens: "ensureDirectory fs (dirname dst) = (ok, fs)"
    using assms(2) by (cases "ensureDirectory fs (dirname dst)") simp
  show "\<not> mrSuccess (fst (safeMove fs src dst True))"
    using fails by (cases ok) (simp_all add: safeMove_def ens Let_def)
  show "snd (safeMove fs src dst True) = fs"
    using fails by (cases ok) (simp_all add: safeMove_def ens Let_def)
qed

lemma safeDelete_trash:
  "safeDelete fs trashDir ts p True =
     (if \<not> existsSync fs p
      then (\<lparr>drSuccess = False, drPath = p, drMovedToTrash = False, drTrashPath = None,
              drError = Some ''File does not exist''\<rparr>, fs)
      else (case safeMove (snd (ensureDirectory fs trashDir)) p (trashName trashDir ts p) True of
              (moveRes, fs2) \<Rightarrow>
                if mrSuccess moveRes
                then (\<lparr>drSuccess = True, drPath = p, drMovedToTrash = True,
                       drTrashPath = Some (mrTo moveRes), drError = None\<rparr>, fs2)
                else (\<lparr>drSuccess = False, drPath = p, drMovedToTrash = False,
                       drTrashPath = None, drError = mrError moveRes\<rparr>, fs2)))"
  by (simp add: safeDelete_def trashName_def Let_def split: prod.splits)

lemma safeDelete_no_trash_dir:
  assumes "stat fs trashDir \<noteq> Some Dir" "snd (ensureDirectory fs trashDir) = fs" "trashDir \<noteq> []"
  shows "\<not> drSuccess (fst (safeDelete fs trashDir ts p True))"
    and "snd (safeDelete fs trashDir ts p True) = fs"
proof -
  let ?tp = "trashName trashDir ts p"
  have par: "dirname ?tp = trashDir" and len: "length ?tp > 1"
    using assms(3) by (rule trashName_parent)+
  from safeMove_no_parent [of fs ?tp p] assms(1,2) par len
  have mv: "\<not> mrSuccess (fst (safeMove fs p ?tp True))" "snd (safeMove fs p ?tp True) = fs"
    by simp_all
  obtain res fs' where eq: "safeMove fs p ?tp True = (res, fs')"
    by (cases "safeMove fs p ?tp True")
  with mv have res: "\<not> mrSuccess res" "fs' = fs"
    by simp_all
  show "\<not> drSuccess (fst (safeDelete fs trashDir ts p True))"
    using res by (simp add: safeDelete_trash assms(2) eq)
  show "snd (safeDelete fs trashDir ts p True) = fs"
    using res by (simp add: safeDelete_trash assms(2) eq)
qed

lemma deleteStep_failed:
  assumes "\<not> drSuccess (fst (safeDelete fs trashDir ts (actFrom a) moveToTrash))"
    "snd (safeDelete fs trashDir ts (actFrom a) moveToTrash) = fs"
  shows "deleteStep trashDir moveToTrash ts a (acc, fs) =
           (acc\<lparr>eaFailed := eaFailed acc + 1,
                 eaActions := eaActions acc @
                   [a\<lparr>actStatus := ActFailed,
                      actError := drError (fst (safeDelete fs trashDir ts (actFrom a) moveToTrash))\<rparr>]\<rparr>,
            fs)"
proof -
  obtain res fs' where eq: "safeDelete fs trashDir ts (actFrom a) moveToTrash = (res, fs')"
    by (cases "safeDelete fs trashDir ts (actFrom a) moveToTrash")
  with assms have "\<not> drSuccess res" "fs' = fs"
    by simp_all
  then show ?thesis
    by (simp add: deleteStep_def eq)
qed

lemma safeDelete_missing:
  assumes "stat fs p = None"
  shows "\<not> drSuccess (fst (safeDelete fs trashDir ts p moveToTrash))"
    "snd (safeDelete fs trashDir ts p moveToTrash) = fs"
  using assms by (simp_all add: safeDelete_def existsSync_def)

lemma rollbackDelete_restores:
  assumes "actType a = Delete" "actTo a = g" "actFrom a = p"
    and "stat fs g = Some (File st)" "g \<noteq> []" "stat fs p = None" "stat fs (dirname p) = Some Dir"
    "p \<noteq> []"
  shows "\<exists>fs'. rollbackDelete fs a = (\<lparr>roStatus = Restored, roError = None\<rparr>, fs') \<and>
           (\<forall>q. stat fs' q = (if q = p then Some (File st) else if q = g then None else stat fs q))"
proof -
  have fin: "p = (if True \<and> existsSync fs p then getUniqueFilename fs p else p)"
    using assms by (simp add: existsSync_def)
  have "g \<noteq> p"
    using assms by auto
  from safeMove_renames [OF assms(4) assms(7) assms(8) fin assms(8) refl _ this]
  have mv: "safeMove fs g p True =
          (\<lparr>mrSuccess = True, mrFrom = g, mrTo = p, mrError = None\<rparr>,
           removeEntry p (removeEntry g fs) @ [(p, File st)])"
    using assms by simp
  show ?thesis
    using assms mv
    by (simp add: rollbackDelete_def Let_def fileExists_def existsSync_def ensureDirectory_there
        stat_after_rename)
qed

lemma rollbackLoop_append:
  "rollbackLoop sid i (xs @ ys) st = rollbackLoop sid (i + length xs) ys (rollbackLoop sid i xs st)"
  by (induction xs arbitrary: i st) simp_all

lemma rollbackStep_restored:
  assumes "actType a = Delete" "actTo a \<noteq> []"
    "rollbackDelete fs a = (\<lparr>roStatus = Restored, roError = None\<rparr>, fs')"
  shows "\<exists>acc'. rollbackStep s a (acc, fs) = (acc', fs') \<and>
           details acc' = details acc @
             [\<lparr>rdFrom = actTo a, rdTo = actFrom a, rdStatus = Restored, rdError = None\<rparr>] \<and>
           accRestored acc' = accRestored acc + 1"
  using assms by (simp add: rollbackStep_def toOrFrom_def)

text \<open>
  The round trip of the two loops: when the trash is a directory, the files to delete
  are no directories and lie in directories, and every deletion finds a free name, the
  rollback of the completed actions, last first, restores each file from the path
  recorded for it and leaves the filesystem as it was before the deletions.
\<close>

lemma deleteLoop_round_trip:
  assumes "freeTrashNames fs trashDir stamp i (map actFrom as)"
    and "stat fs trashDir = Some Dir" "trashDir \<noteq> []"
    and "list_all (\<lambda>a. actType a = Delete) as"
    and "\<forall>a\<in>set as. stat fs (actFrom a) \<noteq> Some Dir \<and> stat fs (dirname (actFrom a)) = Some Dir"
  shows "\<exists>ds acc' fs'.
           deleteLoop trashDir True stamp i as (acc, fs) = (acc', fs') \<and>
           eaActions acc' = eaActions acc @ ds \<and>
           (\<forall>racc j. \<exists>racc' fs''.
              rollbackLoop sid j (rev (filter (\<lambda>a. actStatus a = ActCompleted) ds)) (racc, fs') =
                (racc', fs'') \<and>
              (\<forall>q. stat fs'' q = stat fs q) \<and>
              details racc' = details racc @
                map (\<lambda>a. \<lparr>rdFrom = actTo a, rdTo = actFrom a, rdStatus = Restored, rdError = None\<rparr>)
                  (rev (filter (\<lambda>a. actStatus a = ActCompleted) ds)) \<and>
              accRestored racc' =
                accRestored racc + length (filter (\<lambda>a. actStatus a = ActCompleted) ds))"
  using assms
proof (induction as arbitrary: fs i acc)
  case Nil
  show ?case
    by simp
next
  case (Cons a rest)
  let ?p = "actFrom a"
  let ?sel = "\<lambda>xs. filter (\<lambda>a. actStatus a = ActCompleted) xs"
  let ?det = "\<lambda>a. \<lparr>rdFrom = actTo a, rdTo = actFrom a, rdStatus = Restored, rdError = None\<rparr>"
  from Cons.prems have del: "actType a = Delete" and dels: "list_all (\<lambda>a. actType a = Delete) rest"
    by simp_all
  from Cons.prems(1) have
    run: "freeTrashNames (snd (safeDelete fs trashDir (stamp i) ?p True)) trashDir stamp (i + 1)
            (map actFrom rest)"
    by simp
  from Cons.prems(5) have nodir: "stat fs ?p \<noteq> Some Dir"
    and parent: "stat fs (dirname ?p) = Some Dir"
    and wf: "\<forall>a\<in>set rest. stat fs (actFrom a) \<noteq> Some Dir \<and> stat fs (dirname (actFrom a)) = Some Dir"
    by simp_all
  show ?case
  proof (cases "stat fs ?p")
    case None
    let ?a' = "a\<lparr>actStatus := ActFailed,
                  actError := drError (fst (safeDelete fs trashDir (stamp i) ?p True))\<rparr>"
    let ?acc1 = "acc\<lparr>eaFailed := eaFailed acc + 1, eaActions := eaActions acc @ [?a']\<rparr>"
    note miss = safeDelete_missing [OF None, of trashDir "stamp i" True]
    from deleteStep_failed [OF miss] have step: "deleteStep trashDir True (stamp i) a (acc, fs) = (?acc1, fs)" .
    from Cons.IH [OF run [unfolded miss(2)] Cons.prems(2,3) dels wf, of ?acc1]
    obtain ds acc' fs' where
      loop: "deleteLoop trashDir True stamp (i + 1) rest (?acc1, fs) = (acc', fs')"
      and acts: "eaActions acc' = eaActions ?acc1 @ ds"
      and undo: "\<forall>racc j. \<exists>racc' fs''.
              rollbackLoop sid j (rev (?sel ds)) (racc, fs') = (racc', fs'') \<and>
              (\<forall>q. stat fs'' q = stat fs q) \<and>
              details racc' = details racc @ map ?det (rev (?sel ds)) \<and>
              accRestored racc' = accRestored racc + length (?sel ds)"
      by (elim exE conjE) iprover
    have full: "deleteLoop trashDir True stamp i (a # rest) (acc, fs) = (acc', fs')"
      using step loop by simp
    have acts': "eaActions acc' = eaActions acc @ (?a' # ds)"
      using acts by simp
    have restore: "\<forall>racc j. \<exists>racc' fs''.
              rollbackLoop sid j (rev (?sel (?a' # ds))) (racc, fs') = (racc', fs'') \<and>
              (\<forall>q. stat fs'' q = stat fs q) \<and>
              details racc' = details racc @ map ?det (rev (?sel (?a' # ds))) \<and>
              accRestored racc' = accRestored racc + length (?sel (?a' # ds))"
      using undo by simp
    show ?thesis
      by (intro exI conjI, rule full, rule acts', rule restore)
  next
    case (Some n)
    with nodir obtain st where isfile: "stat fs ?p = Some (File st)"
      by (cases n) auto
    with Cons.prems(1) have
      free: "\<not> existsSync fs (getUniqueFilename fs (trashName trashDir (stamp i) ?p))"
      by (simp add: existsSync_def)
    define g where "g = getUniqueFilename fs (trashName trashDir (stamp i) ?p)"
    from safeDelete_free [OF isfile Cons.prems(2,3) g_def free [folded g_def]]
    obtain fs1 where
      sd: "safeDelete fs trashDir (stamp i) ?p True =
             (\<lparr>drSuccess = True, drPath = ?p, drMovedToTrash = True, drTrashPath = Some g,
               drError = None\<rparr>, fs1)"
      and st1: "\<And>q. stat fs1 q = (if q = g then Some (File st) else if q = ?p then None else stat fs q)"
      and g: "g \<noteq> []" "g \<noteq> ?p" "g \<noteq> trashDir"
      by blast
    have nog: "stat fs g = None"
      using free by (simp add: g_def existsSync_def)
    let ?a' = "a\<lparr>actStatus := ActCompleted, actTo := g\<rparr>"
    let ?acc1 = "acc\<lparr>eaDone := eaDone acc + 1, eaActions := eaActions acc @ [?a']\<rparr>"
    have step: "deleteStep trashDir True (stamp i) a (acc, fs) = (?acc1, fs1)"
      using sd g(1) by (rule deleteStep_to_trash)
    have trash1: "stat fs1 trashDir = Some Dir"
      using st1 g(3) Cons.prems(2) isfile by auto
    have wf1: "\<forall>a\<in>set rest. stat fs1 (actFrom a) \<noteq> Some Dir \<and>
                 stat fs1 (dirname (actFrom a)) = Some Dir"
      using wf st1 isfile nog by auto
    from run sd have run1: "freeTrashNames fs1 trashDir stamp (i + 1) (map actFrom rest)"
      by simp
    from Cons.IH [OF run1 trash1 Cons.prems(3) dels wf1, of ?acc1]
    obtain ds acc' fs' where
      loop: "deleteLoop trashDir True stamp (i + 1) rest (?acc1, fs1) = (acc', fs')"
      and acts: "eaActions acc' = eaActions ?acc1 @ ds"
      and undo: "\<forall>racc j. \<exists>racc' fs''.
              rollbackLoop sid j (rev (?sel ds)) (racc, fs') = (racc', fs'') \<and>
              (\<forall>q. stat fs'' q = stat fs1 q) \<and>
              details racc' = details racc @ map ?det (rev (?sel ds)) \<and>
              accRestored racc' = accRestored racc + length (?sel ds)"
      by (elim exE conjE) iprover
    have full: "deleteLoop trashDir True stamp i (a # rest) (acc, fs) = (acc', fs')"
      using step loop by simp
    have acts': "eaActions acc' = eaActions acc @ (?a' # ds)"
      using acts by simp
    have sel: "?sel (?a' # ds) = ?a' # ?sel ds"
      by simp
    have pne: "?p \<noteq> []" and pp: "dirname ?p \<noteq> ?p" "dirname ?p \<noteq> g"
      using isfile parent nog by (auto simp: dirname_def)
    have restore: "\<forall>racc j. \<exists>racc' fs''.
              rollbackLoop sid j (rev (?sel (?a' # ds))) (racc, fs') = (racc', fs'') \<and>
              (\<forall>q. stat fs'' q = stat fs q) \<and>
              details racc' = details racc @ map ?det (rev (?sel (?a' # ds))) \<and>
              accRestored racc' = accRestored racc + length (?sel (?a' # ds))"
    proof (intro allI)
      fix racc j
      from undo [rule_format, of j racc] obtain racc1 fs2 where
        b1: "rollbackLoop sid j (rev (?sel ds)) (racc, fs') = (racc1, fs2)"
        and b2': "\<forall>q. stat fs2 q = stat fs1 q"
        and b3: "details racc1 = details racc @ map ?det (rev (?sel ds))"
        and b4: "accRestored racc1 = accRestored racc + length (?sel ds)"
        by (elim exE conjE) iprover
      note b2 = b2' [rule_format]
      have "\<exists>fs3. rollbackDelete fs2 ?a' = (\<lparr>roStatus = Restored, roError = None\<rparr>, fs3) \<and>
           (\<forall>q. stat fs3 q = (if q = ?p then Some (File st) else if q = g then None else stat fs2 q))"
        using del g pne pp parent
        by (intro rollbackDelete_restores) (simp_all add: b2 st1)
      then obtain fs3 where
        rd: "rollbackDelete fs2 ?a' = (\<lparr>roStatus = Restored, roError = None\<rparr>, fs3)"
        and st3: "\<And>q. stat fs3 q = (if q = ?p then Some (File st) else if q = g then None else stat fs2 q)"
        by blast
      have "actType ?a' = Delete" "actTo ?a' \<noteq> []"
        using del g(1) by simp_all
      from rollbackStep_restored [OF this rd, of "sid (j + length (?sel ds))" racc1]
      obtain racc2 where
        rs: "rollbackStep (sid (j + length (?sel ds))) ?a' (racc1, fs2) = (racc2, fs3)"
        and d2: "details racc2 = details racc1 @ [?det ?a']"
        and r2: "accRestored racc2 = accRestored racc1 + 1"
        by (elim exE conjE) simp
      have "rollbackLoop sid j (rev (?sel (?a' # ds))) (racc, fs') = (racc2, fs3)"
        unfolding sel by (simp add: rollbackLoop_append b1 rs)
      moreover have "\<forall>q. stat fs3 q = stat fs q"
        using st3 b2 st1 isfile nog by simp
      moreover have "details racc2 = details racc @ map ?det (rev (?sel (?a' # ds)))"
        unfolding sel using d2 b3 by simp
      moreover have "accRestored racc2 = accRestored racc + length (?sel (?a' # ds))"
        unfolding sel using r2 b4 by simp
      ultimately show "\<exists>racc' fs''.
              rollbackLoop sid j (rev (?sel (?a' # ds))) (racc, fs') = (racc', fs'') \<and>
              (\<forall>q. stat fs'' q = stat fs q) \<and>
              details racc' = details racc @ map ?det (rev (?sel (?a' # ds))) \<and>
              accRestored racc' = accRestored racc + length (?sel (?a' # ds))"
        by (intro exI conjI)
    qed
    show ?thesis
      by (intro exI conjI, rule full, rule acts', rule restore)
  qed
qed

text \<open>Without a directory for the trash every deletion fails.\<close>

lemma deleteLoop_no_trash_dir:
  assumes "stat fs trashDir \<noteq> Some Dir" "snd (ensureDirectory fs trashDir) = fs" "trashDir \<noteq> []"
  shows "\<exists>ds acc'. deleteLoop trashDir True stamp i as (acc, fs) = (acc', fs) \<and>
           eaActions acc' = eaActions acc @ ds \<and>
           filter (\<lambda>a. actStatus a = ActCompleted) ds = []"
proof (induction as arbitrary: i acc)
  case Nil
  show ?case by simp
next
  case (Cons a rest)
  let ?a' = "a\<lparr>actStatus := ActFailed,
                actError := drError (fst (safeDelete fs trashDir (stamp i) (actFrom a) True))\<rparr>"
  let ?acc1 = "acc\<lparr>eaFailed := eaFailed acc + 1, eaActions := eaActions acc @ [?a']\<rparr>"
  from deleteStep_failed [OF safeDelete_no_trash_dir [OF assms]]
  have step: "deleteStep trashDir True (stamp i) a (acc, fs) = (?acc1, fs)" .
  from Cons.IH [of "i + 1" ?acc1] obtain ds acc' where
    loop: "deleteLoop trashDir True stamp (i + 1) rest (?acc1, fs) = (acc', fs)"
    and acts: "eaActions acc' = eaActions ?acc1 @ ds"
    and none: "filter (\<lambda>a. actStatus a = ActCompleted) ds = []"
    by (elim exE conjE)
  have "deleteLoop trashDir True stamp i (a # rest) (acc, fs) = (acc', fs)"
    using step loop by simp
  moreover have "eaActions acc' = eaActions acc @ (?a' # ds)"
    using acts by simp
  moreover have "filter (\<lambda>a. actStatus a = ActCompleted) (?a' # ds) = []"
    using none by simp
  ultimately show ?case
    by (intro exI conjI)
qed

lemma findOne_fresh: "\<not> list_ex (\<lambda>x. transactionId x = k) store \<Longrightarrow> findOne store k = None"
  by (simp add: findOne_None_iff)

lemma isCompleted_eq: "isCompleted = (\<lambda>a. actStatus a = ActCompleted)"
  by (rule ext) (simp add: isCompleted_def)

lemma removalActions_deletes:
  "list_all (\<lambda>a. actType a = Delete \<and> (\<not> moveToTrash \<longrightarrow> actTo a = []))
     (removalActions sid k trashDir moveToTrash h files)"
  by (induction files arbitrary: k) auto

lemma groupStep_deletes:
  "list_all (\<lambda>a. actType a = Delete \<and> (\<not> moveToTrash \<longrightarrow> actTo a = [])) (gaActions acc) \<Longrightarrow>
   list_all (\<lambda>a. actType a = Delete \<and> (\<not> moveToTrash \<longrightarrow> actTo a = []))
     (gaActions (groupStep sid trashDir moveToTrash strat entry acc))"
  by (cases entry) (simp add: groupStep_def Let_def removalActions_deletes)

lemma groupLoop_deletes:
  "list_all (\<lambda>a. actType a = Delete \<and> (\<not> moveToTrash \<longrightarrow> actTo a = [])) (gaActions acc) \<Longrightarrow>
   list_all (\<lambda>a. actType a = Delete \<and> (\<not> moveToTrash \<longrightarrow> actTo a = []))
     (gaActions (groupLoop sid trashDir moveToTrash strat hm acc))"
  by (induction hm arbitrary: acc) (auto intro: groupStep_deletes)

text \<open>
  What a \<open>dedupe\<close> that is not a dry run leaves in the ledger: the transaction with the
  outcome of the loop over the planned deletions. The planned deletions are of files of
  the listing: files, in directories.
\<close>

lemma dedupe_recorded:
  assumes ok: "dedupe fl trashDir s dirPath False strat moveToTrash tid sid stamp now = (Inr r, s')"
  shows "\<exists>t planned.
     findOne (ledger s') tid = Some t \<and> \<not> dryRun t \<and> txStatus t \<noteq> RolledBack \<and>
     list_all (\<lambda>a. actType a = Delete \<and> (\<not> moveToTrash \<longrightarrow> actTo a = [])) planned \<and>
     (\<forall>a\<in>set planned. (\<exists>st. stat (fsys s) (actFrom a) = Some (File st)) \<and>
        stat (fsys s) (dirname (actFrom a)) = Some Dir) \<and>
     deleteLoop trashDir moveToTrash stamp 0 planned
       (\<lparr>eaActions = [], eaDone = 0, eaFailed = 0\<rparr>,
        if moveToTrash \<and> planned \<noteq> [] then snd (ensureDirectory (fsys s) trashDir) else fsys s) =
       (\<lparr>eaActions = actions t, eaDone = dsDeletedCount (deSummary r),
         eaFailed = dsFailedCount (deSummary r)\<rparr>, fsys s')"
proof -
  let ?ps = "getAllFiles (fsys s) (normalizePath dirPath) True None"
  let ?g = "groupLoop sid trashDir moveToTrash strat (hashLoop (fsys s) ?ps [])
              \<lparr>gaDuplicates = [], gaActions = [], gaTotalDuplicateFiles = 0, gaSavedBytes = 0\<rparr>"
  let ?L = "deleteLoop trashDir moveToTrash stamp 0 (gaActions ?g)
              (\<lparr>eaActions = [], eaDone = 0, eaFailed = 0\<rparr>,
               if moveToTrash \<and> gaActions ?g \<noteq> [] then snd (ensureDirectory (fsys s) trashDir)
               else fsys s)"
  have kinds: "list_all (\<lambda>a. actType a = Delete \<and> (\<not> moveToTrash \<longrightarrow> actTo a = [])) (gaActions ?g)"
    by (rule groupLoop_deletes) simp
  have files: "\<forall>a\<in>set (gaActions ?g). (\<exists>st. stat (fsys s) (actFrom a) = Some (File st)) \<and>
        stat (fsys s) (dirname (actFrom a)) = Some Dir"
    using planned_listed [of _ sid trashDir moveToTrash strat "fsys s" ?ps]
      getAllFiles_are_files [of _ "fsys s" "normalizePath dirPath" True None]
      getAllFiles_parent [of _ "fsys s" "normalizePath dirPath" True None]
    by blast
  from ok have "\<exists>t. findOne (ledger s') tid = Some t \<and> \<not> dryRun t \<and> txStatus t \<noteq> RolledBack \<and>
      actions t = eaActions (fst ?L) \<and> dsDeletedCount (deSummary r) = eaDone (fst ?L) \<and>
      dsFailedCount (deSummary r) = eaFailed (fst ?L) \<and> fsys s' = snd ?L"
    by (auto simp: dedupe_def Let_def saveNew_def findOne_append findOne_fresh split: if_splits)
  then obtain t where "findOne (ledger s') tid = Some t" "\<not> dryRun t" "txStatus t \<noteq> RolledBack"
      and eqs: "actions t = eaActions (fst ?L)" "dsDeletedCount (deSummary r) = eaDone (fst ?L)"
      "dsFailedCount (deSummary r) = eaFailed (fst ?L)" "fsys s' = snd ?L"
    by (elim exE conjE)
  have "?L = (\<lparr>eaActions = actions t, eaDone = dsDeletedCount (deSummary r),
         eaFailed = dsFailedCount (deSummary r)\<rparr>, fsys s')"
    unfolding eqs by (simp add: prod_eq_iff)
  with \<open>findOne (ledger s') tid = Some t\<close> \<open>\<not> dryRun t\<close> \<open>txStatus t \<noteq> RolledBack\<close> kinds files
  show ?thesis
    by (intro exI conjI)
qed

lemma rollback_report:
  assumes "findOne (ledger s) tid = Some t" "txStatus t \<noteq> RolledBack" "\<not> dryRun t"
    and "rollback s tid rid sid now = (Inr r, s')"
    and "rollbackLoop sid 0 (reversedActions t) (emptyAcc, fsys s) = (acc, fs')"
  shows "fsys s' = fs'" "rrDetails r = details acc"
    "rsRestoredCount (rrSummary r) = accRestored acc"
    "rsSkippedCount (rrSummary r) = accSkipped acc"
  using assms by (auto simp: rollback_def Let_def split: sum.splits)

lemma deleteStep_from:
  "\<exists>a'. eaActions (fst (deleteStep trashDir moveToTrash ts a (acc, fs))) = eaActions acc @ [a'] \<and>
        actFrom a' = actFrom a \<and> actType a' = actType a \<and> (\<not> moveToTrash \<longrightarrow> actTo a' = actTo a)"
  by (auto simp: deleteStep_def safeDelete_def Let_def split: prod.splits option.splits sum.splits)

lemma deleteLoop_from:
  "\<exists>ds. eaActions (fst (deleteLoop trashDir moveToTrash stamp i as (acc, fs))) = eaActions acc @ ds \<and>
        map actFrom ds = map actFrom as \<and> map actType ds = map actType as \<and>
        (\<not> moveToTrash \<longrightarrow> map actTo ds = map actTo as)"
proof (induction as arbitrary: i acc fs)
  case Nil
  show ?case by simp
next
  case (Cons a rest)
  obtain acc1 fs1 where step: "deleteStep trashDir moveToTrash (stamp i) a (acc, fs) = (acc1, fs1)"
    by (cases "deleteStep trashDir moveToTrash (stamp i) a (acc, fs)")
  from deleteStep_from [of trashDir moveToTrash "stamp i" a acc fs] step
  obtain a' where a': "eaActions acc1 = eaActions acc @ [a']" "actFrom a' = actFrom a"
      "actType a' = actType a" "\<not> moveToTrash \<longrightarrow> actTo a' = actTo a"
    by auto
  from Cons.IH [of "i + 1" acc1 fs1] obtain ds where
    ds: "eaActions (fst (deleteLoop trashDir moveToTrash stamp (i + 1) rest (acc1, fs1))) =
           eaActions acc1 @ ds" "map actFrom ds = map actFrom rest" "map actType ds = map actType rest"
      "\<not> moveToTrash \<longrightarrow> map actTo ds = map actTo rest"
    by (elim exE conjE)
  have "eaActions (fst (deleteLoop trashDir moveToTrash stamp i (a # rest) (acc, fs))) =
          eaActions acc @ (a' # ds)"
    using step ds(1) a'(1) by simp
  moreover have "map actFrom (a' # ds) = map actFrom (a # rest)"
      "map actType (a' # ds) = map actType (a # rest)"
      "\<not> moveToTrash \<longrightarrow> map actTo (a' # ds) = map actTo (a # rest)"
    using a' ds by simp_all
  ultimately show ?case
    by (intro exI conjI)
qed

text \<open>A deletion without a copy in the trash is skipped by the rollback, which changes nothing.\<close>

lemma rollbackStep_skips:
  assumes "actType a = Delete" "actTo a = []"
  shows "\<exists>acc'. rollbackStep s a (acc, fs) = (acc', fs) \<and>
           map (\<lambda>d. (rdFrom d, rdTo d, rdStatus d)) (details acc') =
             map (\<lambda>d. (rdFrom d, rdTo d, rdStatus d)) (details acc) @ [(actFrom a, actFrom a, Skipped)] \<and>
           accRestored acc' = accRestored acc \<and> accSkipped acc' = accSkipped acc + 1"
  using assms by (simp add: rollbackStep_def rollbackDelete_def toOrFrom_def)

lemma rollbackLoop_skips:
  assumes "list_all (\<lambda>a. actType a = Delete \<and> actTo a = []) as"
  shows "\<exists>acc'. rollbackLoop sid i as (acc, fs) = (acc', fs) \<and>
           map (\<lambda>d. (rdFrom d, rdTo d, rdStatus d)) (details acc') =
             map (\<lambda>d. (rdFrom d, rdTo d, rdStatus d)) (details acc) @
               map (\<lambda>a. (actFrom a, actFrom a, Skipped)) as \<and>
           accRestored acc' = accRestored acc \<and> accSkipped acc' = accSkipped acc + length as"
  using assms
proof (induction as arbitrary: i acc)
  case Nil
  show ?case by simp
next
  case (Cons a rest)
  then have a: "actType a = Delete" "actTo a = []"
    and rest: "list_all (\<lambda>a. actType a = Delete \<and> actTo a = []) rest"
    by simp_all
  from rollbackStep_skips [OF a, of "sid i" acc fs] obtain acc1 where
    s1: "rollbackStep (sid i) a (acc, fs) = (acc1, fs)"
      "map (\<lambda>d. (rdFrom d, rdTo d, rdStatus d)) (details acc1) =
         map (\<lambda>d. (rdFrom d, rdTo d, rdStatus d)) (details acc) @ [(actFrom a, actFrom a, Skipped)]"
      "accRestored acc1 = accRestored acc" "accSkipped acc1 = accSkipped acc + 1"
    by (elim exE conjE)
  from Cons.IH [OF rest, of "i + 1" acc1] obtain acc' where
    s2: "rollbackLoop sid (i + 1) rest (acc1, fs) = (acc', fs)"
      "map (\<lambda>d. (rdFrom d, rdTo d, rdStatus d)) (details acc') =
         map (\<lambda>d. (rdFrom d, rdTo d, rdStatus d)) (details acc1) @
           map (\<lambda>a. (actFrom a, actFrom a, Skipped)) rest"
      "accRestored acc' = accRestored acc1" "accSkipped acc' = accSkipped acc1 + length rest"
    by (elim exE conjE)
  have "rollbackLoop sid i (a # rest) (acc, fs) = (acc', fs)"
    using s1(1) s2(1) by simp
  moreover have "map (\<lambda>d. (rdFrom d, rdTo d, rdStatus d)) (details acc') =
      map (\<lambda>d. (rdFrom d, rdTo d, rdStatus d)) (details acc) @
        map (\<lambda>a. (actFrom a, actFrom a, Skipped)) (a # rest)"
    using s1(2) s2(2) by simp
  moreover have "accRestored acc' = accRestored acc" "accSkipped acc' = accSkipped acc + length (a # rest)"
    using s1 s2 by simp_all
  ultimately show ?case
    by (intro exI conjI)
qed

text \<open>A permanent deletion takes the file away; what is missing stays missing.\<close>

lemma deleteStep_unlinked:
  assumes "\<forall>d\<in>set (eaActions acc). actStatus d = ActCompleted \<longrightarrow> stat fs (actFrom d) = None"
    and "deleteStep trashDir False ts a (acc, fs) = (acc', fs')"
  shows "\<forall>d\<in>set (eaActions acc'). actStatus d = ActCompleted \<longrightarrow> stat fs' (actFrom d) = None"
proof (cases "stat fs (actFrom a)")
  case None
  with assms show ?thesis
    by (auto simp: deleteStep_def safeDelete_def existsSync_def)
next
  case (Some n)
  show ?thesis
  proof (cases n)
    case (File st)
    with Some assms show ?thesis
      by (auto simp: deleteStep_def safeDelete_def existsSync_def unlinkSync_def stat_removeEntry)
  next
    case Dir
    with Some assms show ?thesis
      by (auto simp: deleteStep_def safeDelete_def existsSync_def unlinkSync_def)
  qed
qed

lemma deleteLoop_unlinked:
  assumes "\<forall>d\<in>set (eaActions acc). actStatus d = ActCompleted \<longrightarrow> stat fs (actFrom d) = None"
    and "deleteLoop trashDir False stamp i as (acc, fs) = (acc', fs')"
  shows "\<forall>d\<in>set (eaActions acc'). actStatus d = ActCompleted \<longrightarrow> stat fs' (actFrom d) = None"
  using assms
proof (induction as arbitrary: i acc fs)
  case Nil
  then show ?case by simp
next
  case (Cons a rest)
  obtain acc1 fs1 where step: "deleteStep trashDir False (stamp i) a (acc, fs) = (acc1, fs1)"
    by (cases "deleteStep trashDir False (stamp i) a (acc, fs)")
  from deleteStep_unlinked [OF Cons.prems(1) step]
  have "\<forall>d\<in>set (eaActions acc1). actStatus d = ActCompleted \<longrightarrow> stat fs1 (actFrom d) = None" .
  moreover from Cons.prems(2) step
  have "deleteLoop trashDir False stamp (i + 1) rest (acc1, fs1) = (acc', fs')"
    by simp
  ultimately show ?case
    by (rule Cons.IH)
qed

subsection \<open>When the names in the trash are free\<close>

lemma readNat_showNat: "readNat (showNat n) = n"
proof (induction n rule: showNat.induct)
  case (1 n)
  have dig: "of_char (digit d) - 48 = d" if "d < 10" for d :: nat
    using that by (simp add: digit_def)
  show ?case
  proof (cases "n < 10")
    case True
    then show ?thesis
      by (subst showNat.simps) (simp add: readNat_def dig)
  next
    case False
    with "1" have "readNat (showNat (n div 10)) = n div 10"
      by simp
    with False show ?thesis
      by (subst showNat.simps) (simp add: readNat_def dig)
  qed
qed

lemma showNat_inj: "showNat m = showNat n \<Longrightarrow> m = n"
  by (metis readNat_showNat)

lemma digit_no_dot: "d < 10 \<Longrightarrow> digit d \<noteq> CHR ''.''"
proof
  assume "d < 10" "digit d = CHR ''.''"
  then have "of_char (digit d) = (of_char CHR ''.'' :: nat)"
    by simp
  with \<open>d < 10\<close> show False
    by (simp add: digit_def)
qed

lemma showNat_no_dot: "CHR ''.'' \<notin> set (showNat n)"
proof (induction n rule: showNat.induct)
  case (1 n)
  show ?case
  proof (cases "n < 10")
    case True
    then show ?thesis
      by (subst showNat.simps) (simp add: digit_no_dot [symmetric])
  next
    case False
    with "1" have "CHR ''.'' \<notin> set (showNat (n div 10))"
      by simp
    moreover have "digit (n mod 10) \<noteq> CHR ''.''"
      by (rule digit_no_dot) simp
    ultimately show ?thesis
      using False by (subst showNat.simps) auto
  qed
qed

lemma lastDot_append:
  "CHR ''.'' \<notin> set pre \<Longrightarrow> lastDot (pre @ s) = map_option (\<lambda>i. i + length pre) (lastDot s)"
  by (induction pre) (auto simp: option.map_ident option.map_comp comp_def split: option.splits)

text \<open>The stem of a name keeps a beginning of the name that has no dot.\<close>

lemma stem_prefix:
  assumes "CHR ''.'' \<notin> set pre" "pre \<noteq> []"
  shows "prefix pre (basename_ext (dir @ [pre @ name]) (extname (dir @ [pre @ name])))"
proof -
  let ?b = "pre @ name"
  have b: "basename (dir @ [?b]) = ?b"
    by (simp add: basename_def)
  show ?thesis
  proof (cases "lastDot name")
    case None
    with assms have "lastDot ?b = None"
      by (simp add: lastDot_append)
    then show ?thesis
      by (simp add: basename_ext_def extname_def extname_of_def b)
  next
    case (Some k)
    with assms have ld: "lastDot ?b = Some (k + length pre)"
      by (simp add: lastDot_append)
    have "prefix pre (take (length ?b - length (drop (k + length pre) ?b)) ?b)"
      by (simp add: prefix_def)
    then show ?thesis
      using ld assms by (auto simp: basename_ext_def extname_def extname_of_def b Let_def)
  qed
qed

lemma trashEntries_stat:
  "trashEntries fs trashDir pre =
     card {q. stat fs q \<noteq> None \<and> isChild trashDir q \<and> prefix pre (last q)}"
proof -
  have "set (filter (\<lambda>q. isChild trashDir q \<and> prefix pre (last q)) (map fst fs)) =
          {q. stat fs q \<noteq> None \<and> isChild trashDir q \<and> prefix pre (last q)}"
    by (auto simp: stat_def map_of_eq_None_iff)
  then show ?thesis
    by (simp add: trashEntries_def)
qed

lemma finite_entries: "finite {q. stat fs q \<noteq> None \<and> P q}"
proof -
  have "{q. stat fs q \<noteq> None \<and> P q} \<subseteq> fst ` set fs"
    by (auto simp: stat_def map_of_eq_None_iff)
  then show ?thesis
    by (rule finite_subset) simp
qed

lemma uniqueLoop_exists_all:
  assumes "existsSync fs (uniqueLoop fs dir b e k)" "k \<le> 999"
  shows "\<forall>c. k \<le> c \<and> c \<le> 999 \<longrightarrow> existsSync fs (candidate dir b e c)"
  using assms
proof (induction fs dir b e k rule: uniqueLoop.induct)
  case (1 fs dir baseName ext counter)
  show ?case
  proof (cases "existsSync fs (candidate dir baseName ext counter) \<and> counter + 1 < 1000")
    case True
    with "1.prems"(1) have "existsSync fs (uniqueLoop fs dir baseName ext (counter + 1))"
      by (subst (asm) uniqueLoop.simps) (simp add: Let_def)
    with "1.IH" [OF refl refl] True
    have "\<forall>c. counter + 1 \<le> c \<and> c \<le> 999 \<longrightarrow> existsSync fs (candidate dir baseName ext c)"
      by simp
    with True show ?thesis
      by (metis Suc_eq_plus1 le_antisym not_less_eq_eq)
  next
    case False
    with "1.prems"(1) have here: "existsSync fs (candidate dir baseName ext counter)"
      by (subst (asm) uniqueLoop.simps) (auto simp: Let_def split: if_splits)
    with False "1.prems"(2) have "counter = 999"
      by simp
    with here show ?thesis
      by auto
  qed
qed

lemma candidate_inj: "candidate dir b e c = candidate dir b e c' \<Longrightarrow> c = c'"
  by (auto simp: candidate_def join_def dest: showNat_inj)

text \<open>
  When the search for a free name in the trash is exhausted, the trash holds the 999
  candidates: entries that begin with the clock reading of the deletion.
\<close>

lemma exhausted_entries:
  assumes "existsSync fs (getUniqueFilename fs (trashName trashDir ts p))" "trashDir \<noteq> []"
  shows "999 \<le> trashEntries fs trashDir (showNat ts @ ''_'')"
proof -
  let ?pre = "showNat ts @ ''_''"
  let ?tp = "trashName trashDir ts p"
  let ?b = "basename_ext ?tp (extname ?tp)"
  let ?cand = "candidate trashDir ?b (extname ?tp)"
  have tp: "?tp = trashDir @ [?pre @ basename p]"
    by (simp add: trashName_def join_def)
  have par: "dirname ?tp = trashDir"
    using assms(2) by (simp add: trashName_def dirname_join)
  have "CHR ''.'' \<notin> set ?pre" "?pre \<noteq> []"
    using showNat_no_dot [of ts] by simp_all
  from stem_prefix [OF this, of trashDir "basename p"] have stem: "prefix ?pre ?b"
    by (simp only: tp)
  from assms(1) have "existsSync fs (uniqueLoop fs trashDir ?b (extname ?tp) 1)"
    by (auto simp: getUniqueFilename_def Let_def par split: if_splits)
  from uniqueLoop_exists_all [OF this]
  have all: "\<forall>c. 1 \<le> c \<and> c \<le> 999 \<longrightarrow> existsSync fs (?cand c)"
    by simp
  have "?cand ` {1..999} \<subseteq> {q. stat fs q \<noteq> None \<and> isChild trashDir q \<and> prefix ?pre (last q)}"
  proof
    fix q assume "q \<in> ?cand ` {1..999}"
    then obtain c where c: "1 \<le> c" "c \<le> 999" "q = ?cand c"
      by auto
    with all have "stat fs q \<noteq> None"
      by (simp add: existsSync_def)
    moreover have "isChild trashDir q"
      using assms(2) c(3) by (cases trashDir) (simp_all add: isChild_def candidate_def join_def)
    moreover have "last q = ?b @ (''_'' @ showNat c @ extname ?tp)"
      using c(3) by (simp add: candidate_def join_def)
    then have "prefix ?pre (last q)"
      using prefix_prefix [OF stem] by (simp only:)
    ultimately show "q \<in> {q. stat fs q \<noteq> None \<and> isChild trashDir q \<and> prefix ?pre (last q)}"
      by simp
  qed
  from card_mono [OF finite_entries this]
  have "card (?cand ` {1..999}) \<le> trashEntries fs trashDir ?pre"
    by (simp add: trashEntries_stat)
  moreover have "inj_on ?cand {1..999}"
    by (auto simp: inj_on_def dest: candidate_inj)
  then have "card (?cand ` {1..999}) = 999"
    by (simp add: card_image)
  ultimately show ?thesis
    by simp
qed

text \<open>A deletion adds one entry to the trash.\<close>

lemma moved_entries:
  assumes "\<forall>q. stat fs1 q = (if q = g then Some n else if q = p then None else stat fs q)"
  shows "trashEntries fs1 trashDir pre \<le> trashEntries fs trashDir pre + 1"
proof -
  let ?E = "\<lambda>fs. {q. stat fs q \<noteq> None \<and> isChild trashDir q \<and> prefix pre (last q)}"
  have "?E fs1 \<subseteq> insert g (?E fs)"
    using assms by (auto split: if_splits)
  moreover have fin: "finite (?E fs)"
    by (rule finite_entries)
  then have "finite (insert g (?E fs))"
    by (rule finite.insertI)
  ultimately have "card (?E fs1) \<le> card (insert g (?E fs))"
    by (intro card_mono)
  also have "\<dots> \<le> card (?E fs) + 1"
    using fin by (simp only: card_insert_if) simp
  finally show ?thesis
    by (simp only: trashEntries_stat)
qed

text \<open>
  Every deletion finds a free name when, for each clock reading of the run, the entries
  of the trash that begin with it and the files to delete are fewer than 1000 together.
\<close>

lemma freeTrashNames_sparse:
  assumes "stat fs trashDir = Some Dir" "trashDir \<noteq> []"
    and "\<forall>p\<in>set ps. stat fs p \<noteq> Some Dir"
    and "\<forall>j<length ps. trashEntries fs trashDir (showNat (stamp (i + j)) @ ''_'') + length ps < 1000"
  shows "freeTrashNames fs trashDir stamp i ps"
  using assms
proof (induction ps arbitrary: fs i)
  case Nil
  show ?case by simp
next
  case (Cons p rest)
  let ?g = "getUniqueFilename fs (trashName trashDir (stamp i) p)"
  let ?fs1 = "snd (safeDelete fs trashDir (stamp i) p True)"
  from Cons.prems(4) have "trashEntries fs trashDir (showNat (stamp i) @ ''_'') < 999"
    by fastforce
  with exhausted_entries [of fs trashDir "stamp i" p] Cons.prems(2) have free: "\<not> existsSync fs ?g"
    by fastforce
  have few: "trashEntries fs trashDir (showNat (stamp (i + 1 + j)) @ ''_'') + length rest < 999"
    if "j < length rest" for j
    using Cons.prems(4) [rule_format, of "Suc j"] that by simp
  have "freeTrashNames ?fs1 trashDir stamp (i + 1) rest"
  proof (cases "stat fs p")
    case None
    then have same: "?fs1 = fs"
      by (rule safeDelete_missing)
    show ?thesis
      unfolding same using Cons.prems(1,2,3) few
      by (intro Cons.IH) (auto intro: less_trans)
  next
    case (Some n)
    with Cons.prems(3) obtain st where isfile: "stat fs p = Some (File st)"
      by (cases n) auto
    from safeDelete_free [OF isfile Cons.prems(1,2) refl free]
    have st1: "\<forall>q. stat ?fs1 q = (if q = ?g then Some (File st) else if q = p then None else stat fs q)"
      and g: "?g \<noteq> trashDir"
      by auto
    have nog: "stat fs ?g = None"
      using free by (simp add: existsSync_def)
    show ?thesis
    proof (rule Cons.IH)
      show "stat ?fs1 trashDir = Some Dir"
        using st1 g Cons.prems(1) isfile by auto
      show "trashDir \<noteq> []"
        by (rule Cons.prems(2))
      show "\<forall>p\<in>set rest. stat ?fs1 p \<noteq> Some Dir"
        using st1 Cons.prems(3) by auto
      show "\<forall>j<length rest.
              trashEntries ?fs1 trashDir (showNat (stamp (i + 1 + j)) @ ''_'') + length rest < 1000"
      proof (intro allI impI)
        fix j assume "j < length rest"
        from few [OF this] moved_entries [OF st1, of trashDir "showNat (stamp (i + 1 + j)) @ ''_''"]
        show "trashEntries ?fs1 trashDir (showNat (stamp (i + 1 + j)) @ ''_'') + length rest < 1000"
          by simp
      qed
    qed
  qed
  with free show ?case
    by simp
qed

text \<open>
  So it is for a \<open>dedupe\<close> with the trash: a condition on the trash as \<open>dedupe\<close> finds it
  and on the clock readings of its deletions.
\<close>

lemma dedupe_names_free:
  assumes run: "dedupe fl trashDir s dirPath False strat True tid sid stamp now = (Inr r, s1)"
    and rec: "findOne (ledger s1) tid = Some t"
    and trash: "stat (snd (ensureDirectory (fsys s) trashDir)) trashDir = Some Dir" "trashDir \<noteq> []"
    and few: "\<forall>j<length (actions t).
      trashEntries (snd (ensureDirectory (fsys s) trashDir)) trashDir (showNat (stamp j) @ ''_'') +
        length (actions t) < 1000"
  shows "freeTrashNames (snd (ensureDirectory (fsys s) trashDir)) trashDir stamp 0
           (map actFrom (actions t))"
proof -
  let ?fs0 = "snd (ensureDirectory (fsys s) trashDir)"
  let ?empty = "\<lparr>eaActions = [], eaDone = 0, eaFailed = 0\<rparr>"
  from dedupe_recorded [OF run] rec obtain planned where
    files: "\<forall>a\<in>set planned. (\<exists>st. stat (fsys s) (actFrom a) = Some (File st)) \<and>
        stat (fsys s) (dirname (actFrom a)) = Some Dir"
    and loop: "deleteLoop trashDir True stamp 0 planned
       (?empty, if True \<and> planned \<noteq> [] then ?fs0 else fsys s) =
       (\<lparr>eaActions = actions t, eaDone = dsDeletedCount (deSummary r),
         eaFailed = dsFailedCount (deSummary r)\<rparr>, fsys s1)"
    by auto
  from deleteLoop_from [of trashDir True stamp 0 planned ?empty
      "if True \<and> planned \<noteq> [] then ?fs0 else fsys s"] loop
  have same: "map actFrom (actions t) = map actFrom planned"
    by auto
  have nodirs: "\<forall>p\<in>set (map actFrom (actions t)). stat ?fs0 p \<noteq> Some Dir"
    unfolding same
  proof
    fix p assume "p \<in> set (map actFrom planned)"
    with files obtain st where "stat (fsys s) p = Some (File st)"
      by auto
    from ensureDirectory_keeps [OF this, of trashDir] show "stat ?fs0 p \<noteq> Some Dir"
      by simp
  qed
  from few have "\<forall>j<length (map actFrom (actions t)).
      trashEntries ?fs0 trashDir (showNat (stamp (0 + j)) @ ''_'') +
        length (map actFrom (actions t)) < 1000"
    by simp
  from freeTrashNames_sparse [OF trash nodirs this] show ?thesis .
qed

section \<open>Claims about the rollback service\<close>

text \<open>
  C5. \<open>rollback\<close> throws ``Transaction not found'' when the ledger has no transaction
  under the identifier, ``Transaction has already been rolled back'' when the transaction
  found has the status \<open>rolled_back\<close>, and otherwise ``Cannot rollback a dry-run
  transaction'' when its \<open>dryRun\<close> flag is set. In each of the three cases the state
  after the call is the state before it: the filesystem is untouched and no transaction
  is written. After a rollback that returned, a second rollback of the same transaction
  throws ``already rolled back'' and again leaves the state as it was.
\<close>

theorem rollback_rejects:
  "(findOne (ledger s) tid = None \<longrightarrow> rollback s tid rid sid now = (Inl TransactionNotFound, s)) \<and>
   (\<forall>t. findOne (ledger s) tid = Some t \<and> txStatus t = RolledBack \<longrightarrow>
        rollback s tid rid sid now = (Inl AlreadyRolledBack, s)) \<and>
   (\<forall>t. findOne (ledger s) tid = Some t \<and> txStatus t \<noteq> RolledBack \<and> dryRun t \<longrightarrow>
        rollback s tid rid sid now = (Inl CannotRollbackDryRun, s)) \<and>
   (\<forall>r s'. rollback s tid rid sid now = (Inr r, s') \<longrightarrow>
        rollback s' tid rid' sid' now' = (Inl AlreadyRolledBack, s'))"
proof (intro conjI allI impI)
  show "rollback s tid rid sid now = (Inl TransactionNotFound, s)" if "findOne (ledger s) tid = None"
    using that by (simp add: rollback_def)
next
  fix t assume "findOne (ledger s) tid = Some t \<and> txStatus t = RolledBack"
  then show "rollback s tid rid sid now = (Inl AlreadyRolledBack, s)"
    by (simp add: rollback_def)
next
  fix t assume "findOne (ledger s) tid = Some t \<and> txStatus t \<noteq> RolledBack \<and> dryRun t"
  then show "rollback s tid rid sid now = (Inl CannotRollbackDryRun, s)"
    by (simp add: rollback_def)
next
  fix r s' assume ok: "rollback s tid rid sid now = (Inr r, s')"
  then obtain t where t: "findOne (ledger s) tid = Some t"
    by (auto simp: rollback_def split: option.splits)
  have tid: "transactionId t = tid" using t by (rule findOne_id)
  from ok t obtain store1 rb where
    s1: "saveNew (ledger s) rb = Inr store1" and
    l': "ledger s' = saveExisting store1 (t\<lparr>txStatus := RolledBack, rolledBackAt := Some now,
                              rollbackTransactionId := Some rid\<rparr>)"
    by (auto simp: rollback_def Let_def split: if_splits prod.splits sum.splits)
  from s1 have "store1 = ledger s @ [rb]"
    by (auto simp: saveNew_def split: if_splits)
  then have "findOne store1 tid = Some t"
    using t by (simp add: findOne_append)
  then have "findOne (ledger s') tid = Some (t\<lparr>txStatus := RolledBack, rolledBackAt := Some now,
                              rollbackTransactionId := Some rid\<rparr>)"
    using l' tid by (simp add: findOne_saveExisting)
  then show "rollback s' tid rid' sid' now' = (Inl AlreadyRolledBack, s')"
    by (simp add: rollback_def)
qed


text \<open>The three refusals and the second rollback, on the example ledger.\<close>

theorem rollback_rejects_witness:
  "rollback exampleState ''t9'' ''r1'' exampleSid 9 = (Inl TransactionNotFound, exampleState) \<and>
   rollback exampleState ''t3'' ''r1'' exampleSid 9 = (Inl AlreadyRolledBack, exampleState) \<and>
   rollback exampleState ''t2'' ''r1'' exampleSid 9 = (Inl CannotRollbackDryRun, exampleState) \<and>
   (\<exists>r s'. rollback exampleState ''t1'' ''r1'' exampleSid 9 = (Inr r, s') \<and>
       rollback s' ''t1'' ''r2'' exampleSid 10 = (Inl AlreadyRolledBack, s'))"
proof -
  have a: "findOne (ledger exampleState) ''t9'' = None"
    by code_simp
  have b: "findOne (ledger exampleState) ''t3'' = Some exampleRolledBack \<and> txStatus exampleRolledBack = RolledBack"
    by code_simp
  have c: "findOne (ledger exampleState) ''t2'' = Some exampleDryRun \<and> txStatus exampleDryRun \<noteq> RolledBack \<and> dryRun exampleDryRun"
    by code_simp
  have c1: "rollback exampleState ''t9'' ''r1'' exampleSid 9 = (Inl TransactionNotFound, exampleState)"
    using a rollback_rejects [of exampleState "''t9''" "''r1''" exampleSid 9] by simp
  have c2: "rollback exampleState ''t3'' ''r1'' exampleSid 9 = (Inl AlreadyRolledBack, exampleState)"
    using b rollback_rejects [of exampleState "''t3''" "''r1''" exampleSid 9] by simp
  have c3: "rollback exampleState ''t2'' ''r1'' exampleSid 9 = (Inl CannotRollbackDryRun, exampleState)"
    using c rollback_rejects [of exampleState "''t2''" "''r1''" exampleSid 9] by simp
  from example_rollback_ok obtain r s' where
    ok: "rollback exampleState ''t1'' ''r1'' exampleSid 9 = (Inr r, s')"
    by blast
  have c4: "rollback s' ''t1'' ''r2'' exampleSid 10 = (Inl AlreadyRolledBack, s')"
    using ok rollback_rejects [of exampleState "''t1''" "''r1''" exampleSid 9 "''r2''" exampleSid 10]
    by simp
  show ?thesis
    using c1 c2 c3 c4 ok by blast
qed

text \<open>
  C6. For a transaction that is found, not rolled back and not a dry run, the filesystem
  after \<open>rollback\<close> is the one the loop leaves after running over the transaction's
  actions of status \<open>completed\<close>, last one first, and over nothing else; the report has
  one detail per such action, in that order, from the recorded destination back to the
  original path. Actions of any other status (pending, failed) are not in the list.
\<close>

theorem rollback_processes_completed_in_reverse:
  assumes "findOne (ledger s) tid = Some t" "txStatus t \<noteq> RolledBack" "\<not> dryRun t"
  shows "fsys (snd (rollback s tid rid sid now)) =
           snd (rollbackLoop sid 0 (rev (filter (\<lambda>a. actStatus a = ActCompleted) (actions t)))
                  (emptyAcc, fsys s)) \<and>
         (\<forall>r s'. rollback s tid rid sid now = (Inr r, s') \<longrightarrow>
            map (\<lambda>d. (rdFrom d, rdTo d)) (rrDetails r) =
              map (\<lambda>a. (toOrFrom a, actFrom a))
                (rev (filter (\<lambda>a. actStatus a = ActCompleted) (actions t))) \<and>
            totalActions (rrSummary r) =
              length (filter (\<lambda>a. actStatus a = ActCompleted) (actions t)))"
proof (intro conjI allI impI)
  show "fsys (snd (rollback s tid rid sid now)) =
           snd (rollbackLoop sid 0 (rev (filter (\<lambda>a. actStatus a = ActCompleted) (actions t)))
                  (emptyAcc, fsys s))"
    using rollback_eligible(1) [OF assms]
    by (simp add: reversedActions_def actionsToRollback_def)
next
  fix r s' assume ok: "rollback s tid rid sid now = (Inr r, s')"
  have "rrDetails r = details (fst (rollbackLoop sid 0 (reversedActions t) (emptyAcc, fsys s)))"
    using rollback_eligible(2) [OF assms ok] .
  then show "map (\<lambda>d. (rdFrom d, rdTo d)) (rrDetails r) =
              map (\<lambda>a. (toOrFrom a, actFrom a))
                (rev (filter (\<lambda>a. actStatus a = ActCompleted) (actions t)))"
    by (simp add: rollbackLoop_paths emptyAcc_def reversedActions_def actionsToRollback_def)
  show "totalActions (rrSummary r) = length (filter (\<lambda>a. actStatus a = ActCompleted) (actions t))"
    using rollback_eligible(3) [OF assms ok]
    by (simp add: reversedActions_def actionsToRollback_def)
qed

text \<open>On the example: of three actions, the two completed ones, the later one first.\<close>

theorem rollback_processes_completed_in_reverse_witness:
  "findOne (ledger exampleState) ''t1'' = Some exampleOrganize \<and>
   txStatus exampleOrganize \<noteq> RolledBack \<and> \<not> dryRun exampleOrganize \<and>
   fsys (snd (rollback exampleState ''t1'' ''r1'' exampleSid 9)) =
     snd (rollbackLoop exampleSid 0 [exampleMove, exampleGoneMove] (emptyAcc, fsys exampleState)) \<and>
   (\<exists>r s'. rollback exampleState ''t1'' ''r1'' exampleSid 9 = (Inr r, s') \<and>
      map (\<lambda>d. (rdFrom d, rdTo d)) (rrDetails r) =
        [(['''', ''d'', ''Documents'', ''a.pdf''], ['''', ''d'', ''a.pdf'']),
         (['''', ''d'', ''Images'', ''c.jpg''], ['''', ''d'', ''c.jpg''])] \<and>
      totalActions (rrSummary r) = 2)"
proof -
  have h1: "findOne (ledger exampleState) ''t1'' = Some exampleOrganize"
    by code_simp
  have h2: "txStatus exampleOrganize \<noteq> RolledBack"
    by code_simp
  have h3: "\<not> dryRun exampleOrganize"
    by code_simp
  have sel: "rev (filter (\<lambda>a. actStatus a = ActCompleted) (actions exampleOrganize)) =
               [exampleMove, exampleGoneMove]"
    by code_simp
  have paths: "map (\<lambda>a. (toOrFrom a, actFrom a)) [exampleMove, exampleGoneMove] =
        [(['''', ''d'', ''Documents'', ''a.pdf''], ['''', ''d'', ''a.pdf'']),
         (['''', ''d'', ''Images'', ''c.jpg''], ['''', ''d'', ''c.jpg''])]"
    by code_simp
  have len: "length (filter (\<lambda>a. actStatus a = ActCompleted) (actions exampleOrganize)) = 2"
    by code_simp
  note inst = rollback_processes_completed_in_reverse [OF h1 h2 h3, of "''r1''" exampleSid 9,
      unfolded sel paths len]
  from example_rollback_ok obtain r s' where
    ok: "rollback exampleState ''t1'' ''r1'' exampleSid 9 = (Inr r, s')"
    by blast
  from inst ok have res:
    "map (\<lambda>d. (rdFrom d, rdTo d)) (rrDetails r) =
        [(['''', ''d'', ''Documents'', ''a.pdf''], ['''', ''d'', ''a.pdf'']),
         (['''', ''d'', ''Images'', ''c.jpg''], ['''', ''d'', ''c.jpg''])] \<and>
      totalActions (rrSummary r) = 2"
    by blast
  have "rollback exampleState ''t1'' ''r1'' exampleSid 9 = (Inr r, s') \<and>
      map (\<lambda>d. (rdFrom d, rdTo d)) (rrDetails r) =
        [(['''', ''d'', ''Documents'', ''a.pdf''], ['''', ''d'', ''a.pdf'']),
         (['''', ''d'', ''Images'', ''c.jpg''], ['''', ''d'', ''c.jpg''])] \<and>
      totalActions (rrSummary r) = 2"
    using ok res by simp
  then have "\<exists>r s'. rollback exampleState ''t1'' ''r1'' exampleSid 9 = (Inr r, s') \<and>
      map (\<lambda>d. (rdFrom d, rdTo d)) (rrDetails r) =
        [(['''', ''d'', ''Documents'', ''a.pdf''], ['''', ''d'', ''a.pdf'']),
         (['''', ''d'', ''Images'', ''c.jpg''], ['''', ''d'', ''c.jpg''])] \<and>
      totalActions (rrSummary r) = 2"
    by - (intro exI)
  with h1 h2 h3 inst [THEN conjunct1] show ?thesis
    by simp
qed

text \<open>
  C4 (the code departs from it). The claim says that a transaction written by
  \<open>rollback\<close> is not returned by \<open>getRollbackableTransactions\<close>. The query looks at
  \<open>dryRun\<close> and \<open>status\<close> only, never at the type, and \<open>rollback\<close> writes its
  transaction with \<open>dryRun = false\<close> and the status \<open>completed\<close> or
  \<open>partially_completed\<close>: whenever \<open>rollback\<close> returns, the transaction it wrote is
  among the rollbackable ones.
\<close>

theorem rollback_transaction_is_rollbackable:
  assumes "rollback s tid rid sid now = (Inr r, s')"
  shows "\<exists>rb. rb \<in> set (getRollbackableTransactions (ledger s')) \<and> transactionId rb = rid \<and>
           txType rb = Rollback"
  using rollback_written [OF assms] rollback_written_rollbackable by blast

text \<open>On the example ledger.\<close>

theorem rollback_transaction_is_rollbackable_witness:
  "\<exists>r s'. rollback exampleState ''t1'' ''r1'' exampleSid 9 = (Inr r, s') \<and>
     (\<exists>rb. rb \<in> set (getRollbackableTransactions (ledger s')) \<and> transactionId rb = ''r1'' \<and>
        txType rb = Rollback)"
  using example_rollback_ok rollback_transaction_is_rollbackable [of exampleState "''t1''" "''r1''" exampleSid 9]
  by blast

text \<open>
  C10. In the transaction that \<open>rollback\<close> writes, every action has the type
  \<open>restore\<close>, the error text of its detail, and the status \<open>failed\<close> when the detail
  says \<open>failed\<close> and \<open>completed\<close> otherwise: an action that was skipped is recorded
  as \<open>completed\<close>, like one that was restored.
\<close>

theorem rollback_record_hides_skips:
  assumes "rollback s tid rid sid now = (Inr r, s')"
  shows "\<exists>rb. findOne (ledger s') rid = Some rb \<and> txType rb = Rollback \<and>
           map (\<lambda>a. (actType a, actStatus a, actError a)) (actions rb) =
             map (\<lambda>d. (Restore, (if rdStatus d = RbFailed then ActFailed else ActCompleted), rdError d))
               (rrDetails r)"
proof -
  from rollback_written [OF assms] obtain t rb where
    rb: "findOne (ledger s') rid = Some rb" "txType rb = Rollback"
      "actions rb = rollbackActions (fst (rollbackLoop sid 0 (reversedActions t) (emptyAcc, fsys s)))"
      "rrDetails r = details (fst (rollbackLoop sid 0 (reversedActions t) (emptyAcc, fsys s)))"
    by blast
  have "map (\<lambda>a. (actType a, actStatus a, actError a))
          (rollbackActions (fst (rollbackLoop sid 0 (reversedActions t) (emptyAcc, fsys s)))) =
        map (\<lambda>d. (Restore, restoreStatus (rdStatus d), rdError d))
          (details (fst (rollbackLoop sid 0 (reversedActions t) (emptyAcc, fsys s))))"
    by (rule rollbackLoop_record) (simp add: emptyAcc_def)
  then show ?thesis
    using rb by (auto simp: restoreStatus_def)
qed

text \<open>On the example: one action restored, one skipped, both recorded as completed.\<close>

theorem rollback_record_hides_skips_witness:
  "\<exists>r s' rb. rollback exampleState ''t1'' ''r1'' exampleSid 9 = (Inr r, s') \<and>
     map rdStatus (rrDetails r) = [Restored, Skipped] \<and>
     findOne (ledger s') ''r1'' = Some rb \<and> txType rb = Rollback \<and>
     map (\<lambda>a. (actType a, actStatus a)) (actions rb) = [(Restore, ActCompleted), (Restore, ActCompleted)]"
proof -
  from example_rollback_ok obtain r s' where
    ok: "rollback exampleState ''t1'' ''r1'' exampleSid 9 = (Inr r, s')"
    by blast
  have "(case rollback exampleState ''t1'' ''r1'' exampleSid 9 of
           (Inr r, s') \<Rightarrow> map rdStatus (rrDetails r) = [Restored, Skipped] | _ \<Rightarrow> False)"
    by code_simp
  with ok have st: "map rdStatus (rrDetails r) = [Restored, Skipped]"
    by simp
  from rollback_record_hides_skips [OF ok] obtain rb where
    rb: "findOne (ledger s') ''r1'' = Some rb" "txType rb = Rollback"
      "map (\<lambda>a. (actType a, actStatus a, actError a)) (actions rb) =
         map (\<lambda>d. (Restore, (if rdStatus d = RbFailed then ActFailed else ActCompleted), rdError d))
           (rrDetails r)"
    by blast
  have "map (\<lambda>a. (actType a, actStatus a)) (actions rb) =
        map (\<lambda>x. (fst x, fst (snd x))) (map (\<lambda>a. (actType a, actStatus a, actError a)) (actions rb))"
    by simp
  also have "\<dots> = map (\<lambda>d. (Restore, (if d = RbFailed then ActFailed else ActCompleted))) (map rdStatus (rrDetails r))"
    unfolding rb(3) by simp
  also have "\<dots> = [(Restore, ActCompleted), (Restore, ActCompleted)]"
    unfolding st by simp
  finally have "map (\<lambda>a. (actType a, actStatus a)) (actions rb) =
      [(Restore, ActCompleted), (Restore, ActCompleted)]" .
  with ok st rb(1,2) have "rollback exampleState ''t1'' ''r1'' exampleSid 9 = (Inr r, s') \<and>
     map rdStatus (rrDetails r) = [Restored, Skipped] \<and>
     findOne (ledger s') ''r1'' = Some rb \<and> txType rb = Rollback \<and>
     map (\<lambda>a. (actType a, actStatus a)) (actions rb) = [(Restore, ActCompleted), (Restore, ActCompleted)]"
    by simp
  then show ?thesis
    by - (intro exI)
qed

section \<open>Claims about moving safely\<close>

text \<open>
  C3 (the code departs from it). The claim: when the destination and every candidate of
  the bounded search exist, \<open>move\<close> fails with a distinct error and touches no existing
  path. The code: \<open>getUniqueFilename\<close> leaves its loop after the candidate with the
  suffix \<open>_999\<close> and returns it although it exists; \<open>safeMove\<close> renames the source onto
  it and reports success. The file that was there is replaced.
\<close>

theorem safeMove_overwrites_when_candidates_are_exhausted:
  assumes src: "stat fs src = Some (File st)"
    and dir: "stat fs (dirname dst) = Some Dir"
    and dst: "dst \<noteq> []" "existsSync fs dst"
    and full: "\<forall>c. 1 \<le> c \<and> c < 1000 \<longrightarrow>
         (\<exists>old. stat fs (candidate (dirname dst) (basename_ext dst (extname dst)) (extname dst) c)
                  = Some (File old))"
    and other: "src \<noteq> candidate (dirname dst) (basename_ext dst (extname dst)) (extname dst) 999"
  shows "\<exists>fs'. safeMove fs src dst True =
           (\<lparr>mrSuccess = True, mrFrom = src,
             mrTo = candidate (dirname dst) (basename_ext dst (extname dst)) (extname dst) 999,
             mrError = None\<rparr>, fs') \<and>
         existsSync fs (candidate (dirname dst) (basename_ext dst (extname dst)) (extname dst) 999) \<and>
         stat fs' (candidate (dirname dst) (basename_ext dst (extname dst)) (extname dst) 999)
           = Some (File st)"
proof -
  let ?cand = "candidate (dirname dst) (basename_ext dst (extname dst)) (extname dst)"
  from full have ex: "\<forall>c. 1 \<le> c \<and> c < 1000 \<longrightarrow> existsSync fs (?cand c)"
    by (auto simp: existsSync_def)
  from uniqueLoop_exhausted [OF ex] have loop:
    "uniqueLoop fs (dirname dst) (basename_ext dst (extname dst)) (extname dst) 1 = ?cand 999"
    by simp
  with dst have uniq: "getUniqueFilename fs dst = ?cand 999"
    by (simp add: getUniqueFilename_def Let_def)
  from full obtain old where old: "stat fs (?cand 999) = Some (File old)"
    by force
  have dn: "dirname (?cand 999) = dirname dst"
    unfolding candidate_def using dirname_nonempty [OF dst(1)] by (rule dirname_join)
  have ne: "?cand 999 \<noteq> []"
    by (simp add: candidate_def join_def)
  from renameSync_file [OF src _ ne _ other] dir old dn
  have ren: "renameSync fs src (?cand 999) =
               Inr (removeEntry (?cand 999) (removeEntry src fs) @ [(?cand 999, File st)])"
    by simp
  have ens: "ensureDirectory fs (dirname dst) = (True, fs)"
    using dir by (simp add: ensureDirectory_def existsSync_def)
  have "safeMove fs src dst True =
          (\<lparr>mrSuccess = True, mrFrom = src, mrTo = ?cand 999, mrError = None\<rparr>,
           removeEntry (?cand 999) (removeEntry src fs) @ [(?cand 999, File st)])"
    using src dst(2) by (simp add: safeMove_def existsSync_def ens uniq ren Let_def)
  moreover have "stat (removeEntry (?cand 999) (removeEntry src fs) @ [(?cand 999, File st)]) (?cand 999)
                   = Some (File st)"
    by (simp add: stat_after_rename)
  moreover have "existsSync fs (?cand 999)"
    using old by (simp add: existsSync_def)
  ultimately show ?thesis
    by blast
qed

text \<open>
  Moving \<open>/d/x.txt\<close> to \<open>/t/x.txt\<close> where \<open>x.txt\<close> and \<open>x_1.txt\<close> to \<open>x_999.txt\<close>
  exist: the move succeeds, to \<open>/t/x_999.txt\<close>, whose old content is gone.
\<close>

theorem safeMove_overwrites_when_candidates_are_exhausted_witness:
  "stat crowdedFs ['''', ''d'', ''x.txt''] = Some (File newFile) \<and>
   existsSync crowdedFs ['''', ''t'', ''x.txt''] \<and>
   stat crowdedFs ['''', ''t'', ''x_999.txt''] = Some (File oldFile) \<and>
   (\<exists>fs'. safeMove crowdedFs ['''', ''d'', ''x.txt''] ['''', ''t'', ''x.txt''] True =
           (\<lparr>mrSuccess = True, mrFrom = ['''', ''d'', ''x.txt''],
             mrTo = ['''', ''t'', ''x_999.txt''], mrError = None\<rparr>, fs') \<and>
         stat fs' ['''', ''t'', ''x_999.txt''] = Some (File newFile))"
proof -
  have src: "stat crowdedFs ['''', ''d'', ''x.txt''] = Some (File newFile)"
    by (simp add: crowdedFs_def stat_def)
  have dir: "stat crowdedFs (dirname ['''', ''t'', ''x.txt'']) = Some Dir"
    unfolding crowded_paths by (simp add: crowdedFs_def stat_def)
  have dst: "['''', ''t'', ''x.txt''] \<noteq> []" "existsSync crowdedFs ['''', ''t'', ''x.txt'']"
    by (simp_all add: crowdedFs_def stat_def existsSync_def)
  have full: "\<forall>c. 1 \<le> c \<and> c < 1000 \<longrightarrow>
         (\<exists>old. stat crowdedFs (candidate (dirname ['''', ''t'', ''x.txt''])
             (basename_ext ['''', ''t'', ''x.txt''] (extname ['''', ''t'', ''x.txt'']))
             (extname ['''', ''t'', ''x.txt'']) c) = Some (File old))"
    unfolding crowded_paths using crowded_candidates by blast
  have other: "['''', ''d'', ''x.txt''] \<noteq> candidate (dirname ['''', ''t'', ''x.txt''])
             (basename_ext ['''', ''t'', ''x.txt''] (extname ['''', ''t'', ''x.txt'']))
             (extname ['''', ''t'', ''x.txt'']) 999"
    unfolding crowded_paths by simp
  have old: "stat crowdedFs ['''', ''t'', ''x_999.txt''] = Some (File oldFile)"
    using crowded_candidates [of 999] unfolding crowded_paths by simp
  from safeMove_overwrites_when_candidates_are_exhausted [OF src dir dst full other]
  have "\<exists>fs'. safeMove crowdedFs ['''', ''d'', ''x.txt''] ['''', ''t'', ''x.txt''] True =
           (\<lparr>mrSuccess = True, mrFrom = ['''', ''d'', ''x.txt''],
             mrTo = ['''', ''t'', ''x_999.txt''], mrError = None\<rparr>, fs') \<and>
         stat fs' ['''', ''t'', ''x_999.txt''] = Some (File newFile)"
    unfolding crowded_paths by blast
  with src dst(2) old show ?thesis
    by simp
qed

section \<open>Claims about the organizer\<close>



section \<open>Claims about dry runs\<close>

text \<open>
  C9. A call of \<open>organize\<close> or of \<open>dedupe\<close> with \<open>dryRun = true\<close> leaves the
  filesystem as it was: nothing is moved, deleted or created. When it throws, the
  ledger is unchanged too. When it returns, it has written one transaction, which has
  the \<open>dryRun\<close> flag, the status \<open>pending\<close>, and only actions of status \<open>pending\<close>:
  none is completed.
\<close>

theorem dry_run_plans_only:
  "fsys (snd (organize toLower s dirPath True recursive tid sid now)) = fsys s \<and>
   (\<forall>e s'. organize toLower s dirPath True recursive tid sid now = (Inl e, s') \<longrightarrow> s' = s) \<and>
   (\<forall>r s'. organize toLower s dirPath True recursive tid sid now = (Inr r, s') \<longrightarrow>
      (\<exists>t. ledger s' = ledger s @ [t] \<and> transactionId t = tid \<and> dryRun t \<and> txStatus t = Pending \<and>
           list_all (\<lambda>a. actStatus a = ActPending) (actions t))) \<and>
   fsys (snd (dedupe fl trashDir s dirPath True strat moveToTrash tid sid stamp now)) = fsys s \<and>
   (\<forall>e s'. dedupe fl trashDir s dirPath True strat moveToTrash tid sid stamp now = (Inl e, s') \<longrightarrow> s' = s) \<and>
   (\<forall>r s'. dedupe fl trashDir s dirPath True strat moveToTrash tid sid stamp now = (Inr r, s') \<longrightarrow>
      (\<exists>t. ledger s' = ledger s @ [t] \<and> transactionId t = tid \<and> dryRun t \<and> txStatus t = Pending \<and>
           list_all (\<lambda>a. actStatus a = ActPending) (actions t)))"
  using organize_dry_run [of toLower s dirPath recursive tid sid now]
    dedupe_dry_run [of fl trashDir s dirPath strat moveToTrash tid sid stamp now]
  by blast

text \<open>Both dry runs on the example directory return, and write such a transaction.\<close>

theorem dry_run_plans_only_witness:
  "(\<exists>r s' t. organize asciiLowerCase demoState ['''', ''d''] True False ''t1'' exampleSid 9 = (Inr r, s') \<and>
      fsys s' = fsys demoState \<and> ledger s' = ledger demoState @ [t] \<and> dryRun t \<and>
      txStatus t = Pending \<and> list_all (\<lambda>a. actStatus a = ActPending) (actions t)) \<and>
   (\<exists>r s' t. dedupe id demoTrash demoState ['''', ''d''] True KeepLatest True ''t1'' exampleSid
             (\<lambda>i. 1700) 9 = (Inr r, s') \<and>
      fsys s' = fsys demoState \<and> ledger s' = ledger demoState @ [t] \<and> dryRun t \<and>
      txStatus t = Pending \<and> list_all (\<lambda>a. actStatus a = ActPending) (actions t))"
proof -
  note inst = dry_run_plans_only [of asciiLowerCase demoState "['''', ''d'']" False "''t1''" exampleSid 9
      id demoTrash KeepLatest True "\<lambda>i. 1700"]
  from demo_organize_dry_ok obtain r s' where
    o: "organize asciiLowerCase demoState ['''', ''d''] True False ''t1'' exampleSid 9 = (Inr r, s')"
    by blast
  from inst o obtain t where
    t: "ledger s' = ledger demoState @ [t]" "dryRun t" "txStatus t = Pending"
       "list_all (\<lambda>a. actStatus a = ActPending) (actions t)"
    by blast
  from inst o have f: "fsys s' = fsys demoState"
    by simp
  from demo_dedupe_dry_ok obtain r2 s2 where
    d: "dedupe id demoTrash demoState ['''', ''d''] True KeepLatest True ''t1'' exampleSid
             (\<lambda>i. 1700) 9 = (Inr r2, s2)"
    by blast
  from inst d obtain t2 where
    t2: "ledger s2 = ledger demoState @ [t2]" "dryRun t2" "txStatus t2 = Pending"
       "list_all (\<lambda>a. actStatus a = ActPending) (actions t2)"
    by blast
  from inst d have f2: "fsys s2 = fsys demoState"
    by simp
  have "organize asciiLowerCase demoState ['''', ''d''] True False ''t1'' exampleSid 9 = (Inr r, s') \<and>
      fsys s' = fsys demoState \<and> ledger s' = ledger demoState @ [t] \<and> dryRun t \<and>
      txStatus t = Pending \<and> list_all (\<lambda>a. actStatus a = ActPending) (actions t)"
    using o f t by simp
  then have one: "\<exists>r s' t. organize asciiLowerCase demoState ['''', ''d''] True False ''t1'' exampleSid 9 = (Inr r, s') \<and>
      fsys s' = fsys demoState \<and> ledger s' = ledger demoState @ [t] \<and> dryRun t \<and>
      txStatus t = Pending \<and> list_all (\<lambda>a. actStatus a = ActPending) (actions t)"
    by - (intro exI)
  have "dedupe id demoTrash demoState ['''', ''d''] True KeepLatest True ''t1'' exampleSid
             (\<lambda>i. 1700) 9 = (Inr r2, s2) \<and>
      fsys s2 = fsys demoState \<and> ledger s2 = ledger demoState @ [t2] \<and> dryRun t2 \<and>
      txStatus t2 = Pending \<and> list_all (\<lambda>a. actStatus a = ActPending) (actions t2)"
    using d f2 t2 by simp
  then have two: "\<exists>r s' t. dedupe id demoTrash demoState ['''', ''d''] True KeepLatest True ''t1'' exampleSid
             (\<lambda>i. 1700) 9 = (Inr r, s') \<and>
      fsys s' = fsys demoState \<and> ledger s' = ledger demoState @ [t] \<and> dryRun t \<and>
      txStatus t = Pending \<and> list_all (\<lambda>a. actStatus a = ActPending) (actions t)"
    by - (intro exI)
  from one two show ?thesis ..
qed

section \<open>Claims about the deduper\<close>

text \<open>
  C7. Every digest that two or more files of the listing share gives one group of the
  report, and every group of the report is such a digest's files. In a group exactly one
  file has the \<open>isKept\<close> flag. Under \<open>keep-latest\<close> no file of the group was modified
  later than the kept one, under \<open>keep-oldest\<close> none was created earlier, under
  \<open>keep-largest\<close> none is larger; and every file that the listing has before the kept
  one is strictly worse, so among equally good files the first of the listing is kept.
  The sort of the source is taken to be stable, as \<open>Array.prototype.sort\<close> is.
\<close>

theorem dedupe_keeps_one_per_group:
  assumes "dedupe fl trashDir s dirPath dryRunOpt strat moveToTrash tid sid stamp now = (Inr r, s')"
  shows "(\<forall>h. 2 \<le> length (hashGroup (fsys s) (getAllFiles (fsys s) (normalizePath dirPath) True None) h) \<longrightarrow>
            (\<exists>d\<in>set (deDuplicates r). diHash d = h)) \<and>
         (\<forall>d\<in>set (deDuplicates r). \<exists>kept before after.
            hashGroup (fsys s) (getAllFiles (fsys s) (normalizePath dirPath) True None) (diHash d) =
              before @ kept # after \<and>
            2 \<le> length (before @ kept # after) \<and>
            mset (map fst (diFiles d)) = mset (before @ kept # after) \<and>
            filter snd (diFiles d) = [(kept, True)] \<and>
            (case strat of
               KeepLatest \<Rightarrow>
                 (\<forall>f\<in>set before. dfModifiedAt f < dfModifiedAt kept) \<and>
                 (\<forall>f\<in>set after. dfModifiedAt f \<le> dfModifiedAt kept)
             | KeepOldest \<Rightarrow>
                 (\<forall>f\<in>set before. dfCreatedAt kept < dfCreatedAt f) \<and>
                 (\<forall>f\<in>set after. dfCreatedAt kept \<le> dfCreatedAt f)
             | KeepLargest \<Rightarrow>
                 (\<forall>f\<in>set before. dfSize f < dfSize kept) \<and>
                 (\<forall>f\<in>set after. dfSize f \<le> dfSize kept)))"
  using dedupe_covers [OF assms] dedupe_group_kept [OF assms]
  by blast

text \<open>
  On three copies listed as \<open>a.txt\<close>, \<open>b.txt\<close>, \<open>c.txt\<close>, the last two modified at the
  same, latest time: \<open>keep-latest\<close> keeps \<open>b.txt\<close>.
\<close>

theorem dedupe_keeps_one_per_group_witness:
  "\<exists>r s' d kept before after.
     dedupe id demoTrash tieState ['''', ''d''] True KeepLatest True ''t1'' exampleSid
       (\<lambda>i. 1700) 9 = (Inr r, s') \<and>
     deDuplicates r = [d] \<and> diHash d = ''h1'' \<and>
     hashGroup tieFs (getAllFiles tieFs ['''', ''d''] True None) ''h1'' = before @ kept # after \<and>
     map dfPath before = [['''', ''d'', ''a.txt'']] \<and>
     dfPath kept = ['''', ''d'', ''b.txt''] \<and>
     map dfPath after = [['''', ''d'', ''c.txt'']] \<and>
     filter snd (diFiles d) = [(kept, True)]"
proof -
  from tie_dedupe_ok obtain r s' where
    ok: "dedupe id demoTrash tieState ['''', ''d''] True KeepLatest True ''t1'' exampleSid
           (\<lambda>i. 1700) 9 = (Inr r, s')"
    and dups: "map (\<lambda>d. (diHash d, map (\<lambda>x. (dfPath (fst x), snd x)) (diFiles d))) (deDuplicates r) =
       [(''h1'', [(['''', ''d'', ''b.txt''], True), (['''', ''d'', ''c.txt''], False),
                  (['''', ''d'', ''a.txt''], False)])]"
    by (elim exE conjE) iprover
  from dups obtain d where d: "deDuplicates r = [d]" "diHash d = ''h1''"
    "map (\<lambda>x. (dfPath (fst x), snd x)) (diFiles d) =
       [(['''', ''d'', ''b.txt''], True), (['''', ''d'', ''c.txt''], False),
        (['''', ''d'', ''a.txt''], False)]"
    by auto
  from dedupe_keeps_one_per_group [OF ok, unfolded normalizePath_example] d(1)
  obtain kept before after where
    k: "hashGroup (fsys tieState) (getAllFiles (fsys tieState) ['''', ''d''] True None) (diHash d) =
          before @ kept # after"
       "filter snd (diFiles d) = [(kept, True)]"
    by auto
  have fs: "fsys tieState = tieFs"
    by (simp add: tieState_def)
  from d(3) obtain x1 x2 x3 where xs: "diFiles d = [x1, x2, x3]"
    "dfPath (fst x1) = ['''', ''d'', ''b.txt'']" "snd x1" "\<not> snd x2" "\<not> snd x3"
    by auto
  with k(2) have kept: "dfPath kept = ['''', ''d'', ''b.txt'']"
    by auto
  from k(1) have "map dfPath (before @ kept # after) =
      [['''', ''d'', ''a.txt''], ['''', ''d'', ''b.txt''], ['''', ''d'', ''c.txt'']]"
    using tie_group unfolding fs d(2) by simp
  with kept have ba: "map dfPath before = [['''', ''d'', ''a.txt'']] \<and>
      map dfPath after = [['''', ''d'', ''c.txt'']]"
    by (cases before; cases after) (auto simp: Cons_eq_append_conv append_eq_Cons_conv)
  have "dedupe id demoTrash tieState ['''', ''d''] True KeepLatest True ''t1'' exampleSid
       (\<lambda>i. 1700) 9 = (Inr r, s') \<and>
     deDuplicates r = [d] \<and> diHash d = ''h1'' \<and>
     hashGroup tieFs (getAllFiles tieFs ['''', ''d''] True None) ''h1'' = before @ kept # after \<and>
     map dfPath before = [['''', ''d'', ''a.txt'']] \<and>
     dfPath kept = ['''', ''d'', ''b.txt''] \<and>
     map dfPath after = [['''', ''d'', ''c.txt'']] \<and>
     filter snd (diFiles d) = [(kept, True)]"
    using ok d(1,2) k kept ba unfolding fs d(2) by simp
  then show ?thesis
    by - (intro exI)
qed

text \<open>
  C8. After a \<open>dedupe\<close> that is not a dry run, the saved bytes of the report and of the
  transaction are \<open>Math.round\<close> of the planned total (the sum of the groups' wasted
  bytes) times the number of completed actions divided by the number of actions, or by 1
  when there is none; and they do not exceed the planned total. The product and the
  quotient are rounded as doubles are: by any monotone rounding that keeps the integers
  up to \<open>2^53\<close>, which the planned total is taken not to exceed.
\<close>

theorem saved_bytes_scaled_and_bounded:
  assumes "roundsLikeDouble fl"
    and "dedupe fl trashDir s dirPath False strat moveToTrash tid sid stamp now = (Inr r, s')"
    and "sum_list (map diWastedSize (deDuplicates r)) \<le> 2 ^ 53"
  shows "\<exists>t. ledger s' = ledger s @ [t] \<and> savedBytes (summary t) = dsSavedBytes (deSummary r) \<and>
     dsSavedBytes (deSummary r) =
       mathRound (fl (real (sum_list (map diWastedSize (deDuplicates r))) *
          fl (real (length (filter (\<lambda>a. actStatus a = ActCompleted) (actions t))) /
              real (if length (actions t) = 0 then 1 else length (actions t))))) \<and>
     dsSavedBytes (deSummary r) \<le> int (sum_list (map diWastedSize (deDuplicates r)))"
proof -
  from dedupe_executed [OF assms(2)] obtain t where
    t: "ledger s' = ledger s @ [t]" "savedBytes (summary t) = dsSavedBytes (deSummary r)"
      "dsSavedBytes (deSummary r) =
         mathRound (actualSavedBytes fl False (sum_list (map diWastedSize (deDuplicates r)))
          (length (filter isCompleted (actions t))) (length (actions t)))"
    by blast
  have "actualSavedBytes fl False (sum_list (map diWastedSize (deDuplicates r)))
          (length (filter isCompleted (actions t))) (length (actions t))
        \<le> real (sum_list (map diWastedSize (deDuplicates r)))"
    by (rule actualSavedBytes_le [OF assms(1) _ assms(3)]) simp
  then have "dsSavedBytes (deSummary r) \<le> int (sum_list (map diWastedSize (deDuplicates r)))"
    unfolding t(3) by (rule mathRound_le)
  moreover have "isCompleted = (\<lambda>a. actStatus a = ActCompleted)"
    by (simp add: isCompleted_def fun_eq_iff)
  ultimately show ?thesis
    using t by (auto simp: actualSavedBytes_def)
qed

text \<open>On the example directory, with exact arithmetic for the rounding.\<close>

theorem saved_bytes_scaled_and_bounded_witness:
  "roundsLikeDouble id \<and>
   (\<exists>r s'. dedupe id demoTrash demoState ['''', ''d''] False KeepLatest True ''t1'' exampleSid
             (\<lambda>i. 1700) 9 = (Inr r, s') \<and>
      sum_list (map diWastedSize (deDuplicates r)) = 10 \<and>
      dsDeletedCount (deSummary r) = 1 \<and>
      dsSavedBytes (deSummary r) \<le> 10)"
proof -
  from demo_dedupe_ok obtain r s' where
    ok: "dedupe id demoTrash demoState ['''', ''d''] False KeepLatest True ''t1'' exampleSid
             (\<lambda>i. 1700) 9 = (Inr r, s')"
    and w: "sum_list (map diWastedSize (deDuplicates r)) = 10"
    and d: "dsDeletedCount (deSummary r) = 1"
    by blast
  have small: "sum_list (map diWastedSize (deDuplicates r)) \<le> 2 ^ 53"
    unfolding w by simp
  from saved_bytes_scaled_and_bounded [OF roundsLikeDouble_id ok small]
  have "dsSavedBytes (deSummary r) \<le> 10"
    unfolding w by auto
  with ok w d have "dedupe id demoTrash demoState ['''', ''d''] False KeepLatest True ''t1'' exampleSid
             (\<lambda>i. 1700) 9 = (Inr r, s') \<and>
      sum_list (map diWastedSize (deDuplicates r)) = 10 \<and>
      dsDeletedCount (deSummary r) = 1 \<and>
      dsSavedBytes (deSummary r) \<le> 10"
    by simp
  then have "\<exists>r s'. dedupe id demoTrash demoState ['''', ''d''] False KeepLatest True ''t1'' exampleSid
             (\<lambda>i. 1700) 9 = (Inr r, s') \<and>
      sum_list (map diWastedSize (deDuplicates r)) = 10 \<and>
      dsDeletedCount (deSummary r) = 1 \<and>
      dsSavedBytes (deSummary r) \<le> 10"
    by - (intro exI)
  with roundsLikeDouble_id show ?thesis ..
qed

section \<open>Claims about the round trip of a deduplication\<close>

text \<open>
  C1. After a \<open>dedupe\<close> that is not a dry run, \<open>t\<close> being the transaction it has written,
  the rollback of \<open>t\<close> reports one detail for each completed action of \<open>t\<close>, last first.
  With the trash, and when every deletion has found a free name in it, each such action
  is restored from the trash path recorded for it to its original path, the restored
  count is the deleted count, and the filesystem is what it was before the deletions
  (with the directory of the trash, if \<open>dedupe\<close> had to create it). Without the trash,
  each such action is skipped, none is restored, the rollback leaves the filesystem as
  it is, and the deleted files are missing.

  Every deletion finds a free name when, for each clock reading of the run, the entries
  of the trash that begin with it and the files to delete are fewer than 1000 together
  (\<open>dedupe_names_free\<close>): the search of \<open>getUniqueFilename\<close> is exhausted only by 999
  entries in the trash that bear the clock reading of the deletion and the name of the
  file. The path of the trash is \<open>env.trashPath\<close>, which is never empty.
\<close>

theorem dedupe_then_rollback:
  assumes run: "dedupe fl trashDir s dirPath False strat moveToTrash tid sid stamp now = (Inr r, s1)"
    and undo: "rollback s1 tid rid sid' now' = (Inr rr, s2)"
    and rec: "findOne (ledger s1) tid = Some t"
    and names: "moveToTrash \<Longrightarrow>
      trashDir \<noteq> [] \<and>
      freeTrashNames (snd (ensureDirectory (fsys s) trashDir)) trashDir stamp 0
        (map actFrom (actions t))"
  shows "dsDeletedCount (deSummary r) = length (filter isCompleted (actions t)) \<and>
    (if moveToTrash
     then map (\<lambda>d. (rdFrom d, rdTo d, rdStatus d)) (rrDetails rr) =
            map (\<lambda>a. (actTo a, actFrom a, Restored)) (rev (filter isCompleted (actions t))) \<and>
          rsRestoredCount (rrSummary rr) = dsDeletedCount (deSummary r) \<and>
          (\<forall>q. stat (fsys s2) q =
                 stat (if actions t = [] then fsys s else snd (ensureDirectory (fsys s) trashDir)) q)
     else map (\<lambda>d. (rdFrom d, rdTo d, rdStatus d)) (rrDetails rr) =
            map (\<lambda>a. (actFrom a, actFrom a, Skipped)) (rev (filter isCompleted (actions t))) \<and>
          rsRestoredCount (rrSummary rr) = 0 \<and>
          rsSkippedCount (rrSummary rr) = dsDeletedCount (deSummary r) \<and>
          fsys s2 = fsys s1 \<and>
          (\<forall>a\<in>set (filter isCompleted (actions t)). stat (fsys s2) (actFrom a) = None))"
proof -
  let ?empty = "\<lparr>eaActions = [], eaDone = 0, eaFailed = 0\<rparr>"
  let ?sel = "filter (\<lambda>a. actStatus a = ActCompleted)"
  let ?fs0 = "snd (ensureDirectory (fsys s) trashDir)"
  from dedupe_recorded [OF run] rec obtain planned where
    t: "\<not> dryRun t" "txStatus t \<noteq> RolledBack"
    and kinds: "list_all (\<lambda>a. actType a = Delete \<and> (\<not> moveToTrash \<longrightarrow> actTo a = [])) planned"
    and files: "\<forall>a\<in>set planned. (\<exists>st. stat (fsys s) (actFrom a) = Some (File st)) \<and>
        stat (fsys s) (dirname (actFrom a)) = Some Dir"
    and loop: "deleteLoop trashDir moveToTrash stamp 0 planned
       (?empty, if moveToTrash \<and> planned \<noteq> [] then ?fs0 else fsys s) =
       (\<lparr>eaActions = actions t, eaDone = dsDeletedCount (deSummary r),
         eaFailed = dsFailedCount (deSummary r)\<rparr>, fsys s1)"
    by auto
  let ?base = "if moveToTrash \<and> planned \<noteq> [] then ?fs0 else fsys s"
  from deleteLoop_from [of trashDir moveToTrash stamp 0 planned ?empty ?base] loop
  have same: "map actFrom (actions t) = map actFrom planned"
      "map actType (actions t) = map actType planned"
      "\<not> moveToTrash \<longrightarrow> map actTo (actions t) = map actTo planned"
    by auto
  from same(1) have empty: "actions t = [] \<longleftrightarrow> planned = []"
    by (metis map_is_Nil_conv)
  from deleteLoop_counts [of "(?empty, ?base)" trashDir moveToTrash stamp 0 planned] loop
  have cnt: "dsDeletedCount (deSummary r) = length (?sel (actions t))"
    by (simp add: isCompleted_eq)
  have rev_sel: "reversedActions t = rev (?sel (actions t))"
    by (simp add: reversedActions_def actionsToRollback_def)
  show ?thesis
  proof (cases moveToTrash)
    case False
    from kinds False have "list_all (\<lambda>x. x = Delete) (map actType planned)"
        "list_all (\<lambda>x. x = []) (map actTo planned)"
      by (simp_all add: list_all_iff)
    with same False have "list_all (\<lambda>x. x = Delete) (map actType (actions t))"
        "list_all (\<lambda>x. x = []) (map actTo (actions t))"
      by simp_all
    then have "list_all (\<lambda>a. actType a = Delete \<and> actTo a = []) (reversedActions t)"
      by (simp add: rev_sel list_all_iff)
    from rollbackLoop_skips [OF this, of sid' 0 emptyAcc "fsys s1"] obtain acc where
      undone: "rollbackLoop sid' 0 (reversedActions t) (emptyAcc, fsys s1) = (acc, fsys s1)"
        "map (\<lambda>d. (rdFrom d, rdTo d, rdStatus d)) (details acc) =
           map (\<lambda>d. (rdFrom d, rdTo d, rdStatus d)) (details emptyAcc) @
             map (\<lambda>a. (actFrom a, actFrom a, Skipped)) (reversedActions t)"
        "accRestored acc = accRestored emptyAcc"
        "accSkipped acc = accSkipped emptyAcc + length (reversedActions t)"
      by (elim exE conjE)
    note rep = rollback_report [OF rec t(2) t(1) undo undone(1)]
    from deleteLoop_unlinked [of ?empty "fsys s" trashDir stamp 0 planned] loop False
    have gone: "\<forall>d\<in>set (actions t). actStatus d = ActCompleted \<longrightarrow> stat (fsys s1) (actFrom d) = None"
      by simp
    show ?thesis
      using False cnt rep undone(2,3,4) gone
      by (simp add: emptyAcc_def rev_sel isCompleted_eq)
  next
    case True
    with names have ne: "trashDir \<noteq> []"
      and free: "freeTrashNames ?fs0 trashDir stamp 0 (map actFrom planned)"
      by (simp_all add: same(1))
    have "\<exists>acc fs'. rollbackLoop sid' 0 (rev (?sel (actions t))) (emptyAcc, fsys s1) = (acc, fs') \<and>
            (\<forall>q. stat fs' q = stat (if actions t = [] then fsys s else ?fs0) q) \<and>
            details acc = details emptyAcc @
              map (\<lambda>a. \<lparr>rdFrom = actTo a, rdTo = actFrom a, rdStatus = Restored, rdError = None\<rparr>)
                (rev (?sel (actions t))) \<and>
            accRestored acc = accRestored emptyAcc + length (?sel (actions t))"
    proof (cases "planned = []")
      case True
      with loop empty have "actions t = []" "fsys s1 = fsys s"
        by simp_all
      then show ?thesis
        by simp
    next
      case False
      with True loop have loop': "deleteLoop trashDir True stamp 0 planned (?empty, ?fs0) =
         (\<lparr>eaActions = actions t, eaDone = dsDeletedCount (deSummary r),
           eaFailed = dsFailedCount (deSummary r)\<rparr>, fsys s1)"
        by simp
      from False empty have base: "(if actions t = [] then fsys s else ?fs0) = ?fs0"
        by simp
      show ?thesis
      proof (cases "stat ?fs0 trashDir = Some Dir")
        case True
        have dels: "list_all (\<lambda>a. actType a = Delete) planned"
          using kinds by (simp add: list_all_iff)
        have wf: "\<forall>a\<in>set planned. stat ?fs0 (actFrom a) \<noteq> Some Dir \<and>
                    stat ?fs0 (dirname (actFrom a)) = Some Dir"
        proof
          fix a assume "a \<in> set planned"
          with files obtain st where "stat (fsys s) (actFrom a) = Some (File st)"
              "stat (fsys s) (dirname (actFrom a)) = Some Dir"
            by auto
          from ensureDirectory_keeps [OF this(1), of trashDir]
            ensureDirectory_keeps [OF this(2), of trashDir]
          show "stat ?fs0 (actFrom a) \<noteq> Some Dir \<and> stat ?fs0 (dirname (actFrom a)) = Some Dir"
            by simp
        qed
        from deleteLoop_round_trip [OF free True ne dels wf, of ?empty sid'] loop'
        have "\<forall>racc j. \<exists>racc' fs''.
                rollbackLoop sid' j (rev (?sel (actions t))) (racc, fsys s1) = (racc', fs'') \<and>
                (\<forall>q. stat fs'' q = stat ?fs0 q) \<and>
                details racc' = details racc @
                  map (\<lambda>a. \<lparr>rdFrom = actTo a, rdTo = actFrom a, rdStatus = Restored, rdError = None\<rparr>)
                    (rev (?sel (actions t))) \<and>
                accRestored racc' = accRestored racc + length (?sel (actions t))"
          by auto
        from this [rule_format, of 0 emptyAcc] show ?thesis
          unfolding base .
      next
        case False
        with ensureDirectory_cases [of "fsys s" trashDir]
        have same_fs: "?fs0 = fsys s" and nodir: "stat (fsys s) trashDir \<noteq> Some Dir"
          by auto
        from False have "stat ?fs0 trashDir \<noteq> Some Dir" "snd (ensureDirectory ?fs0 trashDir) = ?fs0"
          by (simp_all add: same_fs)
        from deleteLoop_no_trash_dir [OF this ne, of stamp 0 planned ?empty] loop'
        have "?sel (actions t) = []" "fsys s1 = ?fs0"
          by auto
        then show ?thesis
          unfolding base by simp
      qed
    qed
    then obtain acc fs' where
      undone: "rollbackLoop sid' 0 (reversedActions t) (emptyAcc, fsys s1) = (acc, fs')"
        "\<forall>q. stat fs' q = stat (if actions t = [] then fsys s else ?fs0) q"
        "details acc = details emptyAcc @
              map (\<lambda>a. \<lparr>rdFrom = actTo a, rdTo = actFrom a, rdStatus = Restored, rdError = None\<rparr>)
                (rev (?sel (actions t)))"
        "accRestored acc = accRestored emptyAcc + length (?sel (actions t))"
      unfolding rev_sel by (elim exE conjE)
    note rep = rollback_report [OF rec t(2) t(1) undo undone(1)]
    show ?thesis
      using True cnt rep undone(2,3,4)
      by (simp add: emptyAcc_def isCompleted_eq comp_def)
  qed
qed

text \<open>
  With the trash: two copies of \<open>a.txt\<close> deleted at the same clock reading, the name
  \<open>1700_a.txt\<close> being taken, go to \<open>1700_a_1.txt\<close> and \<open>1700_a_2.txt\<close> and come back.
  Without: the deleted copy of the document is skipped and stays missing.
\<close>

theorem dedupe_then_rollback_witness:
  "(\<exists>r s1 rr s2.
      dedupe id ['''', ''t''] roomyState ['''', ''d''] False KeepLatest True ''t1'' exampleSid
        (\<lambda>i. 1700) 9 = (Inr r, s1) \<and>
      rollback s1 ''t1'' ''r1'' exampleSid 10 = (Inr rr, s2) \<and>
      dsDeletedCount (deSummary r) = 2 \<and>
      map (\<lambda>d. (rdFrom d, rdTo d, rdStatus d)) (rrDetails rr) =
        [(['''', ''t'', ''1700_a_2.txt''], ['''', ''d'', ''q'', ''a.txt''], Restored),
         (['''', ''t'', ''1700_a_1.txt''], ['''', ''d'', ''p'', ''a.txt''], Restored)] \<and>
      (\<forall>q. stat (fsys s2) q = stat roomyTrashFs q)) \<and>
   (\<exists>r s1 rr s2.
      dedupe id demoTrash demoState ['''', ''d''] False KeepLatest False ''t1'' exampleSid
        (\<lambda>i. 1700) 9 = (Inr r, s1) \<and>
      rollback s1 ''t1'' ''r1'' exampleSid 10 = (Inr rr, s2) \<and>
      dsDeletedCount (deSummary r) = 1 \<and>
      map (\<lambda>d. (rdFrom d, rdTo d, rdStatus d)) (rrDetails rr) =
        [(['''', ''d'', ''a.pdf''], ['''', ''d'', ''a.pdf''], Skipped)] \<and>
      rsRestoredCount (rrSummary rr) = 0 \<and> fsys s2 = fsys s1 \<and>
      stat (fsys s2) ['''', ''d'', ''a.pdf''] = None)"
proof -
  let ?D = "dedupe id ['''', ''t''] roomyState ['''', ''d''] False KeepLatest True ''t1'' exampleSid
              (\<lambda>i. 1700) 9"
  let ?R = "rollback (snd ?D) ''t1'' ''r1'' exampleSid 10"
  have "(case fst ?D of Inr r \<Rightarrow> dsDeletedCount (deSummary r) = 2 | Inl e \<Rightarrow> False)"
    by code_simp
  then obtain r where r: "fst ?D = Inr r" and two: "dsDeletedCount (deSummary r) = 2"
    by (cases "fst ?D") simp_all
  have "(case fst ?R of Inr rr \<Rightarrow> True | Inl e \<Rightarrow> False)"
    by code_simp
  then obtain rr where rr: "fst ?R = Inr rr"
    by (cases "fst ?R") simp_all
  have "(case findOne (ledger (snd ?D)) ''t1'' of
           Some t \<Rightarrow>
             freeTrashNames (snd (ensureDirectory (fsys roomyState) ['''', ''t''])) ['''', ''t'']
               (\<lambda>i. 1700) 0 (map actFrom (actions t)) \<and>
             map (\<lambda>a. (actTo a, actFrom a, Restored)) (rev (filter isCompleted (actions t))) =
               [(['''', ''t'', ''1700_a_2.txt''], ['''', ''d'', ''q'', ''a.txt''], Restored),
                (['''', ''t'', ''1700_a_1.txt''], ['''', ''d'', ''p'', ''a.txt''], Restored)]
         | None \<Rightarrow> False)"
    by code_simp
  then obtain t where rec: "findOne (ledger (snd ?D)) ''t1'' = Some t"
    and free: "freeTrashNames (snd (ensureDirectory (fsys roomyState) ['''', ''t''])) ['''', ''t'']
               (\<lambda>i. 1700) 0 (map actFrom (actions t))"
    and acts: "map (\<lambda>a. (actTo a, actFrom a, Restored)) (rev (filter isCompleted (actions t))) =
               [(['''', ''t'', ''1700_a_2.txt''], ['''', ''d'', ''q'', ''a.txt''], Restored),
                (['''', ''t'', ''1700_a_1.txt''], ['''', ''d'', ''p'', ''a.txt''], Restored)]"
    by (cases "findOne (ledger (snd ?D)) ''t1''") simp_all
  have run: "?D = (Inr r, snd ?D)"
    using r by (simp add: prod_eq_iff)
  have undo: "?R = (Inr rr, snd ?R)"
    using rr by (simp add: prod_eq_iff)
  have ens: "snd (ensureDirectory (fsys roomyState) ['''', ''t'']) = roomyTrashFs"
    by (simp add: ensureDirectory_def existsSync_def stat_def roomyState_def roomyTrashFs_def)
  from acts have some: "actions t \<noteq> []"
    by auto
  from dedupe_then_rollback [OF run undo rec] free acts some
  have "map (\<lambda>d. (rdFrom d, rdTo d, rdStatus d)) (rrDetails rr) =
        [(['''', ''t'', ''1700_a_2.txt''], ['''', ''d'', ''q'', ''a.txt''], Restored),
         (['''', ''t'', ''1700_a_1.txt''], ['''', ''d'', ''p'', ''a.txt''], Restored)]"
      "\<forall>q. stat (fsys (snd ?R)) q = stat roomyTrashFs q"
    by (simp_all add: ens)
  with run undo two have
    "?D = (Inr r, snd ?D) \<and> rollback (snd ?D) ''t1'' ''r1'' exampleSid 10 = (Inr rr, snd ?R) \<and>
      dsDeletedCount (deSummary r) = 2 \<and>
      map (\<lambda>d. (rdFrom d, rdTo d, rdStatus d)) (rrDetails rr) =
        [(['''', ''t'', ''1700_a_2.txt''], ['''', ''d'', ''q'', ''a.txt''], Restored),
         (['''', ''t'', ''1700_a_1.txt''], ['''', ''d'', ''p'', ''a.txt''], Restored)] \<and>
      (\<forall>q. stat (fsys (snd ?R)) q = stat roomyTrashFs q)"
    by (intro conjI)
  then have one: "\<exists>r s1 rr s2.
      dedupe id ['''', ''t''] roomyState ['''', ''d''] False KeepLatest True ''t1'' exampleSid
        (\<lambda>i. 1700) 9 = (Inr r, s1) \<and>
      rollback s1 ''t1'' ''r1'' exampleSid 10 = (Inr rr, s2) \<and>
      dsDeletedCount (deSummary r) = 2 \<and>
      map (\<lambda>d. (rdFrom d, rdTo d, rdStatus d)) (rrDetails rr) =
        [(['''', ''t'', ''1700_a_2.txt''], ['''', ''d'', ''q'', ''a.txt''], Restored),
         (['''', ''t'', ''1700_a_1.txt''], ['''', ''d'', ''p'', ''a.txt''], Restored)] \<and>
      (\<forall>q. stat (fsys s2) q = stat roomyTrashFs q)"
    by - (intro exI)
  let ?D2 = "dedupe id demoTrash demoState ['''', ''d''] False KeepLatest False ''t1'' exampleSid
               (\<lambda>i. 1700) 9"
  let ?R2 = "rollback (snd ?D2) ''t1'' ''r1'' exampleSid 10"
  have "(case fst ?D2 of Inr r \<Rightarrow> dsDeletedCount (deSummary r) = 1 | Inl e \<Rightarrow> False)"
    by code_simp
  then obtain r2 where r2: "fst ?D2 = Inr r2" and only: "dsDeletedCount (deSummary r2) = 1"
    by (cases "fst ?D2") simp_all
  have "(case fst ?R2 of Inr rr \<Rightarrow> True | Inl e \<Rightarrow> False)"
    by code_simp
  then obtain rr2 where rr2: "fst ?R2 = Inr rr2"
    by (cases "fst ?R2") simp_all
  have "(case findOne (ledger (snd ?D2)) ''t1'' of
           Some t \<Rightarrow> map actFrom (filter isCompleted (actions t)) = [['''', ''d'', ''a.pdf'']]
         | None \<Rightarrow> False)"
    by code_simp
  then obtain t2 where rec2: "findOne (ledger (snd ?D2)) ''t1'' = Some t2"
    and acts2: "map actFrom (filter isCompleted (actions t2)) = [['''', ''d'', ''a.pdf'']]"
    by (cases "findOne (ledger (snd ?D2)) ''t1''") simp_all
  have run2: "?D2 = (Inr r2, snd ?D2)"
    using r2 by (simp add: prod_eq_iff)
  have undo2: "?R2 = (Inr rr2, snd ?R2)"
    using rr2 by (simp add: prod_eq_iff)
  from acts2 obtain a where sel2: "filter isCompleted (actions t2) = [a]"
    and a: "actFrom a = ['''', ''d'', ''a.pdf'']"
    by auto
  from dedupe_then_rollback [OF run2 undo2 rec2] a
  have "map (\<lambda>d. (rdFrom d, rdTo d, rdStatus d)) (rrDetails rr2) =
        [(['''', ''d'', ''a.pdf''], ['''', ''d'', ''a.pdf''], Skipped)]"
      "rsRestoredCount (rrSummary rr2) = 0" "fsys (snd ?R2) = fsys (snd ?D2)"
      "stat (fsys (snd ?R2)) ['''', ''d'', ''a.pdf''] = None"
    unfolding sel2 by (auto elim!: conjE)
  with run2 undo2 only have
    "?D2 = (Inr r2, snd ?D2) \<and> rollback (snd ?D2) ''t1'' ''r1'' exampleSid 10 = (Inr rr2, snd ?R2) \<and>
      dsDeletedCount (deSummary r2) = 1 \<and>
      map (\<lambda>d. (rdFrom d, rdTo d, rdStatus d)) (rrDetails rr2) =
        [(['''', ''d'', ''a.pdf''], ['''', ''d'', ''a.pdf''], Skipped)] \<and>
      rsRestoredCount (rrSummary rr2) = 0 \<and> fsys (snd ?R2) = fsys (snd ?D2) \<and>
      stat (fsys (snd ?R2)) ['''', ''d'', ''a.pdf''] = None"
    by (intro conjI)
  then have two': "\<exists>r s1 rr s2.
      dedupe id demoTrash demoState ['''', ''d''] False KeepLatest False ''t1'' exampleSid
        (\<lambda>i. 1700) 9 = (Inr r, s1) \<and>
      rollback s1 ''t1'' ''r1'' exampleSid 10 = (Inr rr, s2) \<and>
      dsDeletedCount (deSummary r) = 1 \<and>
      map (\<lambda>d. (rdFrom d, rdTo d, rdStatus d)) (rrDetails rr) =
        [(['''', ''d'', ''a.pdf''], ['''', ''d'', ''a.pdf''], Skipped)] \<and>
      rsRestoredCount (rrSummary rr) = 0 \<and> fsys s2 = fsys s1 \<and>
      stat (fsys s2) ['''', ''d'', ''a.pdf''] = None"
    by - (intro exI)
  from one two' show ?thesis ..
qed

end
